theory Spec2Isabelle
  imports Main "HOL-Library.Multiset"
begin

section \<open>Data model of \<^verbatim>\<open>src/App.tsx\<close>\<close>

text \<open>
  The application keeps three insertion-ordered JavaScript \<^verbatim>\<open>Map\<close>s (labels, hunk
  associations, filter) next to the memoised list of parsed file diffs. Hunks are plain
  objects of the \<^verbatim>\<open>diff\<close> package and serve as \<^verbatim>\<open>Map\<close> keys, so two hunks are the
  same key only when they are the same object. A hunk object is therefore modelled by
  its fields together with \<open>ref\<close>, a number that stands for the identity of the object:
  structurally equal hunks that were created separately differ in \<open>ref\<close>. No function of
  the source assigns to a field of a hunk, so an object never changes its value.
\<close>

type_synonym UUID = string

definition NULL_UUID :: UUID where
  "NULL_UUID = ''00000000-0000-0000-0000-000000000000''"

text \<open>
  The coordinates of a hunk are JavaScript numbers. \<^verbatim>\<open>parsePatch\<close> converts the digits of the
  hunk header with unary \<^verbatim>\<open>+\<close>, which gives \<^verbatim>\<open>Infinity\<close> for a numeral beyond the range of
  a double; a hunk read from a document holds what \<^verbatim>\<open>JSON.parse\<close> returned, which may be
  \<^verbatim>\<open>null\<close>. \<open>Finite\<close> stands for a finite number (an integer, as the data model declares
  the coordinates), compared as \<^verbatim>\<open>===\<close> compares numbers.
\<close>

datatype coordinate = Finite int | Infinity | NegInfinity | NaN | Null

record Hunk =
  ref :: nat
  oldStart :: coordinate
  oldLines :: coordinate
  newStart :: coordinate
  newLines :: coordinate
  lines :: "string list"

text \<open>
  \<^verbatim>\<open>ParsedDiff\<close> as the \<^verbatim>\<open>diff\<close> package declares it: every field but \<^verbatim>\<open>hunks\<close> is
  optional, an absent property reads as \<^verbatim>\<open>undefined\<close> (\<open>None\<close>).
\<close>

record ParsedDiff =
  index :: "string option"
  oldFileName :: "string option"
  newFileName :: "string option"
  oldHeader :: "string option"
  newHeader :: "string option"
  hunks :: "Hunk list"

subsection \<open>JavaScript \<^verbatim>\<open>Map\<close>\<close>

text \<open>
  A \<^verbatim>\<open>Map\<close> iterates in insertion order; \<^verbatim>\<open>set\<close> on a key that is present replaces the
  value where it stands, \<^verbatim>\<open>set\<close> on a new key appends the entry. It is modelled by the
  list of its entries.
\<close>

type_synonym ('k, 'v) jsMap = "('k \<times> 'v) list"

fun Map_get :: "('k, 'v) jsMap \<Rightarrow> 'k \<Rightarrow> 'v option" where
  "Map_get [] k = None"
| "Map_get ((k', v') # m) k = (if k' = k then Some v' else Map_get m k)"

definition Map_has :: "('k, 'v) jsMap \<Rightarrow> 'k \<Rightarrow> bool" where
  "Map_has m k = (case Map_get m k of None \<Rightarrow> False | Some _ \<Rightarrow> True)"

fun Map_set :: "'k \<Rightarrow> 'v \<Rightarrow> ('k, 'v) jsMap \<Rightarrow> ('k, 'v) jsMap" where
  "Map_set k v [] = [(k, v)]"
| "Map_set k v ((k', v') # m) = (if k' = k then (k', v) # m else (k', v') # Map_set k v m)"

definition Map_delete :: "'k \<Rightarrow> ('k, 'v) jsMap \<Rightarrow> ('k, 'v) jsMap" where
  "Map_delete k m = filter (\<lambda>e. fst e \<noteq> k) m"

definition Map_size :: "('k, 'v) jsMap \<Rightarrow> nat" where
  "Map_size m = length m"

definition Map_values :: "('k, 'v) jsMap \<Rightarrow> 'v list" where
  "Map_values m = map snd m"

subsection \<open>Component state\<close>

text \<open>
  The state of \<^verbatim>\<open>App\<close>: the three maps held by \<^verbatim>\<open>useMap\<close>, the text of the new-label
  input, the value memoised by \<^verbatim>\<open>diff\<close>, and the number of identifiers drawn so far
  from the generator.
\<close>

record AppState =
  diff :: "ParsedDiff list"
  labelMap :: "(UUID, string) jsMap"
  hunkMap :: "(Hunk, UUID) jsMap"
  labelFilter :: "(UUID, unit) jsMap"
  newLabel :: string
  uuidCalls :: nat

text \<open>
  The actions of \<^verbatim>\<open>useMap\<close> (package \<^verbatim>\<open>usehooks-ts\<close>): \<^verbatim>\<open>set\<close> and \<^verbatim>\<open>remove\<close> replace the
  map by an updated copy of the previous one, \<^verbatim>\<open>reset\<close> by an empty map. The updates are
  applied in the order of the calls.
\<close>

definition labelMapActions_set :: "UUID \<Rightarrow> string \<Rightarrow> AppState \<Rightarrow> AppState" where
  "labelMapActions_set k v st = st\<lparr>labelMap := Map_set k v (labelMap st)\<rparr>"

definition labelMapActions_remove :: "UUID \<Rightarrow> AppState \<Rightarrow> AppState" where
  "labelMapActions_remove k st = st\<lparr>labelMap := Map_delete k (labelMap st)\<rparr>"

definition labelMapActions_reset :: "AppState \<Rightarrow> AppState" where
  "labelMapActions_reset st = st\<lparr>labelMap := []\<rparr>"

definition hunkMapActions_set :: "Hunk \<Rightarrow> UUID \<Rightarrow> AppState \<Rightarrow> AppState" where
  "hunkMapActions_set k v st = st\<lparr>hunkMap := Map_set k v (hunkMap st)\<rparr>"

definition hunkMapActions_remove :: "Hunk \<Rightarrow> AppState \<Rightarrow> AppState" where
  "hunkMapActions_remove k st = st\<lparr>hunkMap := Map_delete k (hunkMap st)\<rparr>"

definition hunkMapActions_reset :: "AppState \<Rightarrow> AppState" where
  "hunkMapActions_reset st = st\<lparr>hunkMap := []\<rparr>"

definition labelFilterActions_set :: "UUID \<Rightarrow> unit \<Rightarrow> AppState \<Rightarrow> AppState" where
  "labelFilterActions_set k v st = st\<lparr>labelFilter := Map_set k v (labelFilter st)\<rparr>"

definition labelFilterActions_remove :: "UUID \<Rightarrow> AppState \<Rightarrow> AppState" where
  "labelFilterActions_remove k st = st\<lparr>labelFilter := Map_delete k (labelFilter st)\<rparr>"

text \<open>
  \<^verbatim>\<open>generateUUID\<close> returns what the \<^verbatim>\<open>uuid\<close> package's random generator returns. The
  generator is a parameter \<open>uuidv4\<close> of the model: \<open>uuidv4 n\<close> is the identifier
  returned by the \<open>n\<close>-th call.
\<close>

definition generateUUID :: "(nat \<Rightarrow> UUID) \<Rightarrow> AppState \<Rightarrow> UUID \<times> AppState" where
  "generateUUID uuidv4 st = (uuidv4 (uuidCalls st), st\<lparr>uuidCalls := Suc (uuidCalls st)\<rparr>)"

subsection \<open>Label, association and filter handlers\<close>

definition importLabel :: "(nat \<Rightarrow> UUID) \<Rightarrow> string \<Rightarrow> AppState \<Rightarrow> UUID \<times> AppState" where
  "importLabel uuidv4 label st =
     (let (id', st1) = generateUUID uuidv4 st
      in (id', labelMapActions_set id' label st1))"

definition addLabel :: "(nat \<Rightarrow> UUID) \<Rightarrow> AppState \<Rightarrow> AppState" where
  "addLabel uuidv4 st =
     (if length (newLabel st) = 0 then st
      else (let (id', st1) = generateUUID uuidv4 st
            in (labelMapActions_set id' (newLabel st) st1)\<lparr>newLabel := []\<rparr>))"

definition changeLabel :: "UUID \<Rightarrow> string \<Rightarrow> AppState \<Rightarrow> AppState" where
  "changeLabel id' newLabel' st = labelMapActions_set id' newLabel' st"

definition removeLabel :: "UUID \<Rightarrow> AppState \<Rightarrow> AppState" where
  "removeLabel id' st = labelMapActions_remove id' st"

definition onHunkLabelChange :: "Hunk \<Rightarrow> UUID option \<Rightarrow> AppState \<Rightarrow> AppState" where
  "onHunkLabelChange hunk newLabelId st =
     (case newLabelId of
        None \<Rightarrow> hunkMapActions_remove hunk st
      | Some id' \<Rightarrow> hunkMapActions_set hunk id' st)"

definition addToFilter :: "UUID \<Rightarrow> AppState \<Rightarrow> AppState" where
  "addToFilter id' st = labelFilterActions_set id' () st"

definition removeFromFilter :: "UUID \<Rightarrow> AppState \<Rightarrow> AppState" where
  "removeFromFilter id' st = labelFilterActions_remove id' st"

text \<open>\<^verbatim>\<open>Array.from(labelMap.entries())\<close>, the list of labels that is rendered.\<close>

definition labelEntries :: "AppState \<Rightarrow> (UUID \<times> string) list" where
  "labelEntries st = labelMap st"

subsection \<open>Displayed hunks\<close>

text \<open>
  The predicate of the \<^verbatim>\<open>filter\<close> call in the render function of \<^verbatim>\<open>App\<close>, and the
  hunks for which a \<^verbatim>\<open>HunkView\<close> is rendered (\<^verbatim>\<open>diff.flatMap\<close>).
\<close>

definition isDisplayed :: "AppState \<Rightarrow> Hunk \<Rightarrow> bool" where
  "isDisplayed st hunk =
     (Map_size (labelFilter st) = 0 \<or> \<not> Map_has (hunkMap st) hunk
      \<or> (case Map_get (hunkMap st) hunk of
            None \<Rightarrow> False
          | Some id' \<Rightarrow> Map_has (labelFilter st) id'))"

definition displayedHunks :: "AppState \<Rightarrow> Hunk list" where
  "displayedHunks st = concat (map (\<lambda>fileDiff. filter (isDisplayed st) (hunks fileDiff)) (diff st))"

definition allHunks :: "AppState \<Rightarrow> Hunk list" where
  "allHunks st = concat (map hunks (diff st))"

subsection \<open>The effect of \<^verbatim>\<open>HunkView\<close>\<close>

text \<open>
  Every rendered \<^verbatim>\<open>HunkView\<close> registers an effect that depends on \<^verbatim>\<open>labelMap\<close>. React
  runs it after the render in which the view is mounted and after every render in which
  \<^verbatim>\<open>labelMap\<close> is a new object, which is the case after each action on the label map.
  The effect reads the props of that render (\<open>st\<close>) and calls \<^verbatim>\<open>onLabelChange\<close>, whose
  update is applied to the current map (\<open>acc\<close>). A view exists only for the hunks that
  pass the filter. \<^verbatim>\<open>selectedLabelId && ...\<close> is false for \<^verbatim>\<open>undefined\<close> and for the
  empty string.
\<close>

definition HunkView_useEffect :: "AppState \<Rightarrow> Hunk \<Rightarrow> AppState \<Rightarrow> AppState" where
  "HunkView_useEffect st hunk acc =
     (case Map_get (hunkMap st) hunk of
        None \<Rightarrow> acc
      | Some selectedLabelId \<Rightarrow>
          if selectedLabelId \<noteq> [] \<and> \<not> Map_has (labelMap st) selectedLabelId
          then onHunkLabelChange hunk None acc else acc)"

definition runEffects :: "AppState \<Rightarrow> AppState" where
  "runEffects st = foldl (\<lambda>acc hunk. HunkView_useEffect st hunk acc) st (displayedHunks st)"

subsection \<open>The effect of \<^verbatim>\<open>LabelView\<close>\<close>

text \<open>
  A \<^verbatim>\<open>LabelView\<close> holds the state \<^verbatim>\<open>inFilter\<close>, \<^verbatim>\<open>false\<close> at first, and an effect that depends
  on it: the effect calls \<^verbatim>\<open>addToFilter(labelId)\<close> when \<^verbatim>\<open>inFilter\<close> is true and
  \<^verbatim>\<open>removeFromFilter(labelId)\<close> when it is false. React runs the effect after the render
  in which the view is mounted and after a render in which \<^verbatim>\<open>inFilter\<close> has changed (the
  filter button). The list items are keyed by the label id, so a view is mounted by the
  first render whose \<^verbatim>\<open>labelMap\<close> holds the id; \<open>prev\<close> is the state of the render before.
  The effect has no cleanup: nothing runs when a view is unmounted.
\<close>

definition LabelView_useEffect :: "bool \<Rightarrow> UUID \<Rightarrow> AppState \<Rightarrow> AppState" where
  "LabelView_useEffect inFilter labelId acc =
     (if inFilter then addToFilter labelId acc else removeFromFilter labelId acc)"

definition mountLabelViews :: "AppState \<Rightarrow> AppState \<Rightarrow> AppState \<Rightarrow> AppState" where
  "mountLabelViews prev st acc =
     foldl (\<lambda>acc' (id', label).
              if Map_has (labelMap prev) id' then acc' else LabelView_useEffect False id' acc')
       acc (labelEntries st)"

text \<open>
  The effects of the render that follows an action on the label map: those of the
  displayed hunks and those of the label views it mounts.
\<close>

definition afterRender :: "AppState \<Rightarrow> AppState \<Rightarrow> AppState" where
  "afterRender prev st = mountLabelViews prev st (runEffects st)"

subsection \<open>Loading: the memoised \<^verbatim>\<open>diff\<close>\<close>

text \<open>
  A plain JavaScript object, as far as \<^verbatim>\<open>exportAsJSON\<close> and \<^verbatim>\<open>Object.entries\<close> see it: the
  list of its own enumerable string-keyed properties in enumeration order. The exported
  and the imported document are objects from label text to arrays of file diffs.
\<close>

type_synonym 'v jsObject = "(string \<times> 'v) list"

type_synonym Document = "ParsedDiff list jsObject"

text \<open>
  \<^verbatim>\<open>JSON.parse\<close> and \<^verbatim>\<open>parsePatch\<close> are library functions. The raw text enters the model
  through what each of them does on it: it throws, or it returns a value.

  Nothing checks the shape of the value that \<^verbatim>\<open>JSON.parse\<close> returns. The model follows the
  type the source declares for it, except at the positions that the import loop
  dereferences; there the value may be any other JSON value (\<open>Other\<close>):
  \<^item> the parsed value itself is \<open>Other\<close> when it is \<^verbatim>\<open>null\<close>, on which \<^verbatim>\<open>Object.entries\<close>
    throws; otherwise it is given by the entries that \<^verbatim>\<open>Object.entries\<close> returns (none for a
    number or a boolean, one per index for a string or an array);
  \<^item> the value of an entry is \<open>Other\<close> when it is no array, so that it has no \<^verbatim>\<open>forEach\<close>;
  \<^item> an element of such an array is \<open>Other\<close> when it is not an object whose property
    \<^verbatim>\<open>hunks\<close> is an array.
\<close>

datatype exn = SyntaxError | TypeError | Error

datatype 'a checked = Ok 'a | Other

type_synonym parsedJSON = "(string \<times> ParsedDiff checked list checked) list checked"

record rawData =
  isJSON :: bool
  JSON_parse_text :: "exn + parsedJSON"
  parsePatch_text :: "exn + ParsedDiff list"

text \<open>
  \<^verbatim>\<open>parsedDiffs.forEach(parsedDiff => parsedDiff.hunks.forEach(hunk => hunkMapActions.set(hunk, id)))\<close>.
  Reading \<^verbatim>\<open>hunks.forEach\<close> of an element that has no array \<^verbatim>\<open>hunks\<close> throws a
  \<^verbatim>\<open>TypeError\<close>; the associations set before stay issued.
\<close>

fun forEach_parsedDiffs :: "UUID \<Rightarrow> ParsedDiff checked list \<Rightarrow> AppState \<Rightarrow> exn \<times> AppState + AppState" where
  "forEach_parsedDiffs id' [] st = Inr st"
| "forEach_parsedDiffs id' (parsedDiff # parsedDiffs) st =
     (case parsedDiff of
        Other \<Rightarrow> Inl (TypeError, st)
      | Ok d \<Rightarrow> forEach_parsedDiffs id' parsedDiffs
                  (foldl (\<lambda>s hunk. hunkMapActions_set hunk id' s) st (hunks d)))"

text \<open>The elements of an array all of whose elements passed the loop.\<close>

fun okValues :: "'a checked list \<Rightarrow> 'a list" where
  "okValues [] = []"
| "okValues (Ok x # xs) = x # okValues xs"
| "okValues (Other # xs) = okValues xs"

text \<open>
  \<^verbatim>\<open>Object.entries(data).forEach(([label, parsedDiffs]) => ...)\<close>, on the pair of \<^verbatim>\<open>result\<close>
  and the state. The label is imported before \<^verbatim>\<open>parsedDiffs.forEach\<close> is read.
\<close>

fun forEach_entries :: "(nat \<Rightarrow> UUID) \<Rightarrow> (string \<times> ParsedDiff checked list checked) list
    \<Rightarrow> ParsedDiff list \<times> AppState \<Rightarrow> exn \<times> AppState + ParsedDiff list \<times> AppState" where
  "forEach_entries uuidv4 [] acc = Inr acc"
| "forEach_entries uuidv4 ((label, parsedDiffs) # entries) acc =
     (case acc of (result, st) \<Rightarrow>
        (let (id', st1) = importLabel uuidv4 label st
         in case parsedDiffs of
              Other \<Rightarrow> Inl (TypeError, st1)
            | Ok ds \<Rightarrow>
                (case forEach_parsedDiffs id' ds st1 of
                   Inl x \<Rightarrow> Inl x
                 | Inr st2 \<Rightarrow> forEach_entries uuidv4 entries (result @ okValues ds, st2))))"

text \<open>
  The function memoised as \<^verbatim>\<open>diff\<close>. It runs, during the render, when \<^verbatim>\<open>rawData\<close> has
  changed. No handler of the source catches what is thrown: \<open>Inl\<close> carries the
  exception together with the state updates issued before it was thrown (an exception
  that leaves the render makes React unmount the component); \<open>Inr\<close> carries the
  returned value.
\<close>

definition diff_useMemo :: "(nat \<Rightarrow> UUID) \<Rightarrow> rawData \<Rightarrow> AppState
    \<Rightarrow> exn \<times> AppState + ParsedDiff list \<times> AppState" where
  "diff_useMemo uuidv4 rd st =
     (let st1 = hunkMapActions_reset st
      in if isJSON rd then
           (case JSON_parse_text rd of
              Inl e \<Rightarrow> Inl (e, st1)
            | Inr data \<Rightarrow>
                (let st2 = labelMapActions_reset st1
                 in case data of
                      Other \<Rightarrow> Inl (TypeError, st2)
                    | Ok entries \<Rightarrow> forEach_entries uuidv4 entries ([], st2)))
         else
           (case parsePatch_text rd of
              Inl e \<Rightarrow> Inl (e, st1)
            | Inr parsed \<Rightarrow> Inr (parsed, st1)))"

text \<open>\<^verbatim>\<open>setRawData\<close> followed by the render that recomputes \<^verbatim>\<open>diff\<close>.\<close>

definition setRawData :: "(nat \<Rightarrow> UUID) \<Rightarrow> rawData \<Rightarrow> AppState \<Rightarrow> exn \<times> AppState + AppState" where
  "setRawData uuidv4 rd st =
     (case diff_useMemo uuidv4 rd st of
        Inl (e, st') \<Rightarrow> Inl (e, st')
      | Inr (d, st') \<Rightarrow> Inr (st'\<lparr>diff := d\<rparr>))"

subsection \<open>Exporting: \<^verbatim>\<open>exportAsJSON\<close>\<close>

text \<open>\<^verbatim>\<open>a || b\<close> on an optional string: \<^verbatim>\<open>undefined\<close> and the empty string are falsy.\<close>

definition orElse :: "string option \<Rightarrow> string \<Rightarrow> string" where
  "orElse a b = (case a of None \<Rightarrow> b | Some s \<Rightarrow> if s = [] then b else s)"

text \<open>
  The key of the inner map is \<^verbatim>\<open>JSON.stringify([oldFileName, newFileName])\<close>. On arrays
  of two optional strings \<^verbatim>\<open>JSON.stringify\<close> is injective (an absent name is written
  \<^verbatim>\<open>null\<close>, a string in quotes with its quotes escaped), and the source uses the key for
  nothing but equality: the key is modelled by the pair it encodes.
\<close>

type_synonym fileKey = "string option \<times> string option"

definition JSON_stringify_names :: "string option \<Rightarrow> string option \<Rightarrow> fileKey" where
  "JSON_stringify_names oldName newName = (oldName, newName)"

text \<open>
  The body of the inner \<^verbatim>\<open>forEach\<close> of \<^verbatim>\<open>exportAsJSON\<close>. The inner map and the synthetic
  diff are objects held by \<^verbatim>\<open>map\<close> and are changed in place; here the changed value is
  written back at its key, which leaves the order of the entries as it is. The \<open>None\<close>
  branches stand for the two casts of the source and are not reached.
\<close>

definition exportHunk :: "AppState \<Rightarrow> ParsedDiff \<Rightarrow> (UUID, (fileKey, ParsedDiff) jsMap) jsMap \<Rightarrow> Hunk
    \<Rightarrow> (UUID, (fileKey, ParsedDiff) jsMap) jsMap" where
  "exportHunk st fileDiff map' hunk =
     (let uuid = orElse (Map_get (hunkMap st) hunk) NULL_UUID;
          map1 = (if \<not> Map_has map' uuid then Map_set uuid [] map' else map');
          innerMap = (case Map_get map1 uuid of Some m \<Rightarrow> m | None \<Rightarrow> []);
          key = JSON_stringify_names (oldFileName fileDiff) (newFileName fileDiff);
          innerMap1 = (if \<not> Map_has innerMap key
                       then Map_set key (fileDiff\<lparr>hunks := []\<rparr>) innerMap else innerMap);
          syntheticDiff = (case Map_get innerMap1 key of
                             Some d \<Rightarrow> d | None \<Rightarrow> fileDiff\<lparr>hunks := []\<rparr>)
      in Map_set uuid
           (Map_set key (syntheticDiff\<lparr>hunks := hunks syntheticDiff @ [hunk]\<rparr>) innerMap1) map1)"

definition exportMap :: "AppState \<Rightarrow> (UUID, (fileKey, ParsedDiff) jsMap) jsMap" where
  "exportMap st =
     foldl (\<lambda>map' fileDiff. foldl (exportHunk st fileDiff) map' (hunks fileDiff)) [] (diff st)"

text \<open>
  Assignment \<^verbatim>\<open>object[key] = value\<close> to an object created by \<^verbatim>\<open>{}\<close>, where the value is
  an array. The key \<^verbatim>\<open>__proto__\<close> is the accessor inherited from \<^verbatim>\<open>Object.prototype\<close>:
  assigning an array to it replaces the prototype of the object and creates no own
  property. A key that is present keeps its place. A new key that is an array index (the
  decimal numeral, without leading zero, of a number below \<open>2\<^sup>3\<^sup>2 - 1\<close>) is enumerated in
  numeric order before all other keys; any other new key comes last.
\<close>

definition isDigit :: "char \<Rightarrow> bool" where
  "isDigit c = (48 \<le> (of_char c :: nat) \<and> (of_char c :: nat) \<le> 57)"

definition decimal :: "string \<Rightarrow> nat" where
  "decimal s = foldl (\<lambda>n c. 10 * n + ((of_char c :: nat) - 48)) 0 s"

definition isArrayIndex :: "string \<Rightarrow> bool" where
  "isArrayIndex s =
     (s \<noteq> [] \<and> list_all isDigit s \<and> (s = ''0'' \<or> hd s \<noteq> CHR ''0'') \<and> decimal s < 2 ^ 32 - 1)"

fun insertIndexed :: "string \<Rightarrow> 'v \<Rightarrow> 'v jsObject \<Rightarrow> 'v jsObject" where
  "insertIndexed k v [] = [(k, v)]"
| "insertIndexed k v ((k', v') # obj) =
     (if isArrayIndex k' \<and> decimal k' < decimal k then (k', v') # insertIndexed k v obj
      else (k, v) # (k', v') # obj)"

definition Object_set :: "string \<Rightarrow> 'v \<Rightarrow> 'v jsObject \<Rightarrow> 'v jsObject" where
  "Object_set k v obj =
     (if k = ''__proto__'' then obj
      else if Map_has obj k then Map_set k v obj
      else if isArrayIndex k then insertIndexed k v obj
      else obj @ [(k, v)])"

text \<open>
  \<^verbatim>\<open>exportAsJSON\<close> up to the object it builds; the file that is saved holds
  \<^verbatim>\<open>JSON.stringify(object, null, 2)\<close>.
\<close>

definition exportAsJSON :: "AppState \<Rightarrow> Document" where
  "exportAsJSON st =
     foldl (\<lambda>object (id', innerMap).
              Object_set (orElse (Map_get (labelMap st) id') ''undefined'') (Map_values innerMap) object)
       [] (exportMap st)"

text \<open>
  \<^verbatim>\<open>JSON.parse\<close> of the text that \<^verbatim>\<open>JSON.stringify\<close> wrote for a document returns an object
  with the same properties in the same order, built from new objects: every hunk of
  the result is an object of its own. \<open>JSON_reparse n\<close> numbers the hunks of the copy
  from \<open>n\<close> on. Strings and finite numbers are read back as they were; a number that is
  not finite is written as \<^verbatim>\<open>null\<close> and read back as \<^verbatim>\<open>null\<close>; a property that is
  \<^verbatim>\<open>undefined\<close> is not written and reads as \<^verbatim>\<open>undefined\<close> again. The value read back has
  the shape of a document (\<open>ofDocument\<close>).
\<close>

fun JSON_number :: "coordinate \<Rightarrow> coordinate" where
  "JSON_number (Finite n) = Finite n"
| "JSON_number Infinity = Null"
| "JSON_number NegInfinity = Null"
| "JSON_number NaN = Null"
| "JSON_number Null = Null"

definition reparseHunk :: "nat \<Rightarrow> Hunk \<Rightarrow> Hunk" where
  "reparseHunk n h =
     h\<lparr>ref := n, oldStart := JSON_number (oldStart h), oldLines := JSON_number (oldLines h),
       newStart := JSON_number (newStart h), newLines := JSON_number (newLines h)\<rparr>"

fun reparseHunks :: "nat \<Rightarrow> Hunk list \<Rightarrow> Hunk list" where
  "reparseHunks n [] = []"
| "reparseHunks n (h # hs) = reparseHunk n h # reparseHunks (Suc n) hs"

fun reparseDiffs :: "nat \<Rightarrow> ParsedDiff list \<Rightarrow> ParsedDiff list" where
  "reparseDiffs n [] = []"
| "reparseDiffs n (d # ds) =
     d\<lparr>hunks := reparseHunks n (hunks d)\<rparr> # reparseDiffs (n + length (hunks d)) ds"

fun JSON_reparse :: "nat \<Rightarrow> Document \<Rightarrow> Document" where
  "JSON_reparse n [] = []"
| "JSON_reparse n ((label, ds) # doc) =
     (label, reparseDiffs n ds) # JSON_reparse (n + length (concat (map hunks ds))) doc"

definition ofDocument :: "Document \<Rightarrow> parsedJSON" where
  "ofDocument doc = Ok (map (\<lambda>(label, parsedDiffs). (label, Ok (map Ok parsedDiffs))) doc)"

subsection \<open>Notions used in the statements\<close>

text \<open>
  The traversal of \<^verbatim>\<open>exportAsJSON\<close>: every hunk with the file diff that holds it, in the
  order of the two nested \<^verbatim>\<open>forEach\<close> loops.
\<close>

definition traversal :: "AppState \<Rightarrow> (ParsedDiff \<times> Hunk) list" where
  "traversal st = concat (map (\<lambda>fileDiff. map (Pair fileDiff) (hunks fileDiff)) (diff st))"

text \<open>The group id of a hunk: the associated label id, or the nil UUID as sentinel.\<close>

definition uuidOf :: "AppState \<Rightarrow> Hunk \<Rightarrow> UUID" where
  "uuidOf st hunk = orElse (Map_get (hunkMap st) hunk) NULL_UUID"

definition keyOf :: "ParsedDiff \<Rightarrow> fileKey" where
  "keyOf fileDiff = JSON_stringify_names (oldFileName fileDiff) (newFileName fileDiff)"

text \<open>The top-level key under which the group of a label id is assigned.\<close>

definition documentKey :: "AppState \<Rightarrow> UUID \<Rightarrow> string" where
  "documentKey st id' = orElse (Map_get (labelMap st) id') ''undefined''"

text \<open>The assignments \<^verbatim>\<open>object[key] = value\<close> of \<^verbatim>\<open>exportAsJSON\<close>, in the order they are made.\<close>

definition exportWrites :: "AppState \<Rightarrow> (string \<times> ParsedDiff list) list" where
  "exportWrites st = map (\<lambda>(id', innerMap). (documentKey st id', Map_values innerMap)) (exportMap st)"

text \<open>
  The grouping as the specification words it: the group of a label id and a pair of
  file names holds the hunks of the traversal with that id and those names, in
  traversal order; a group is emitted as one synthetic file diff, which carries the
  fields of the first file diff of the group; groups and label ids appear in the order
  of their first hunk.
\<close>

definition firstOccurrences :: "'a list \<Rightarrow> 'a list" where
  "firstOccurrences xs = rev (remdups (rev xs))"

definition groupOf :: "AppState \<Rightarrow> UUID \<Rightarrow> fileKey \<Rightarrow> (ParsedDiff \<times> Hunk) list" where
  "groupOf st u k = filter (\<lambda>(fileDiff, hunk). uuidOf st hunk = u \<and> keyOf fileDiff = k) (traversal st)"

definition syntheticDiffOf :: "(ParsedDiff \<times> Hunk) list \<Rightarrow> ParsedDiff" where
  "syntheticDiffOf g =
     (case g of
        [] \<Rightarrow> \<lparr>index = None, oldFileName = None, newFileName = None, oldHeader = None,
                newHeader = None, hunks = []\<rparr>
      | (fileDiff, hunk) # rest \<Rightarrow> fileDiff\<lparr>hunks := map snd g\<rparr>)"

definition exportMap_spec :: "AppState \<Rightarrow> (UUID, (fileKey, ParsedDiff) jsMap) jsMap" where
  "exportMap_spec st =
     map (\<lambda>u. (u, map (\<lambda>k. (k, syntheticDiffOf (groupOf st u k)))
                   (firstOccurrences (map (keyOf \<circ> fst)
                      (filter (\<lambda>(fileDiff, hunk). uuidOf st hunk = u) (traversal st))))))
       (firstOccurrences (map (uuidOf st \<circ> snd) (traversal st)))"

text \<open>
  The inner step of the export loop on the synthetic diff of a group: a new group starts
  from the file diff without hunks, an existing one receives the hunk at its end.
\<close>

definition pushSynthetic :: "ParsedDiff option \<Rightarrow> ParsedDiff \<times> Hunk \<Rightarrow> ParsedDiff" where
  "pushSynthetic v p =
     (let base = (case v of None \<Rightarrow> (fst p)\<lparr>hunks := []\<rparr> | Some d \<Rightarrow> d)
      in base\<lparr>hunks := hunks base @ [snd p]\<rparr>)"

definition pushHunk :: "(fileKey, ParsedDiff) jsMap option \<Rightarrow> ParsedDiff \<times> Hunk
    \<Rightarrow> (fileKey, ParsedDiff) jsMap" where
  "pushHunk v p =
     (let innerMap = (case v of None \<Rightarrow> [] | Some m \<Rightarrow> m)
      in Map_set (keyOf (fst p)) (pushSynthetic (Map_get innerMap (keyOf (fst p))) p) innerMap)"

text \<open>
  What is visible of a hunk: its coordinates and lines, and the names of its file. The
  label text attached to a hunk in a state is the text of the label it is associated
  with. \<open>stateContents\<close> lists, for every hunk of the working diff, the file names, the
  content and the attached label text; \<open>documentContents\<close> lists the same for a
  document, whose label text is the top-level key.
\<close>

type_synonym hunkContent = "coordinate \<times> coordinate \<times> coordinate \<times> coordinate \<times> string list"

definition content :: "Hunk \<Rightarrow> hunkContent" where
  "content h = (oldStart h, oldLines h, newStart h, newLines h, lines h)"

definition labelText :: "AppState \<Rightarrow> Hunk \<Rightarrow> string option" where
  "labelText st hunk =
     (case Map_get (hunkMap st) hunk of None \<Rightarrow> None | Some id' \<Rightarrow> Map_get (labelMap st) id')"

definition stateContents :: "AppState \<Rightarrow> (fileKey \<times> hunkContent \<times> string option) list" where
  "stateContents st = map (\<lambda>(fileDiff, hunk). (keyOf fileDiff, content hunk, labelText st hunk)) (traversal st)"

definition documentContents :: "Document \<Rightarrow> (fileKey \<times> hunkContent \<times> string) list" where
  "documentContents doc =
     concat (map (\<lambda>(label, parsedDiffs).
       concat (map (\<lambda>parsedDiff. map (\<lambda>hunk. (keyOf parsedDiff, content hunk, label)) (hunks parsedDiff))
                parsedDiffs)) doc)"

definition documentHunks :: "Document \<Rightarrow> Hunk list" where
  "documentHunks doc = concat (map (\<lambda>(label, parsedDiffs). concat (map hunks parsedDiffs)) doc)"

text \<open>
  The parsed values on which the import loop does not throw, and the entries of a
  parsed value.
\<close>

definition wellShaped :: "parsedJSON \<Rightarrow> bool" where
  "wellShaped data =
     (case data of
        Other \<Rightarrow> False
      | Ok entries \<Rightarrow>
          list_all (\<lambda>(label, parsedDiffs).
            case parsedDiffs of
              Other \<Rightarrow> False
            | Ok ds \<Rightarrow> list_all (\<lambda>d. case d of Other \<Rightarrow> False | Ok x \<Rightarrow> True) ds) entries)"



text \<open>
  The body of the import loop on an entry of a document, all of whose values have the
  shape the loop needs.
\<close>

definition importEntry :: "(nat \<Rightarrow> UUID) \<Rightarrow> ParsedDiff list \<times> AppState \<Rightarrow> string \<times> ParsedDiff list
    \<Rightarrow> ParsedDiff list \<times> AppState" where
  "importEntry uuidv4 acc entry =
     (case acc of (result, st) \<Rightarrow>
      case entry of (label, parsedDiffs) \<Rightarrow>
        (let (id', st1) = importLabel uuidv4 label st;
             st2 = foldl (\<lambda>s parsedDiff. foldl (\<lambda>s' hunk. hunkMapActions_set hunk id' s') s
                            (hunks parsedDiff)) st1 parsedDiffs
         in (result @ parsedDiffs, st2)))"

text \<open>
  The content of a hunk as the written text gives it back, and the hunks whose content
  the text gives back unchanged.
\<close>

definition JSON_content :: "hunkContent \<Rightarrow> hunkContent" where
  "JSON_content c =
     (case c of (a, b, c', d, ls) \<Rightarrow> (JSON_number a, JSON_number b, JSON_number c', JSON_number d, ls))"

fun isFinite :: "coordinate \<Rightarrow> bool" where
  "isFinite (Finite n) = True"
| "isFinite c = False"

definition finiteCoordinates :: "Hunk \<Rightarrow> bool" where
  "finiteCoordinates h =
     (isFinite (oldStart h) \<and> isFinite (oldLines h) \<and> isFinite (newStart h) \<and> isFinite (newLines h))"

text \<open>No hunk object of the copy occurs under two top-level keys.\<close>

fun entriesDisjoint :: "Document \<Rightarrow> bool" where
  "entriesDisjoint [] = True"
| "entriesDisjoint ((label, ds) # doc) =
     (set (concat (map hunks ds)) \<inter> set (documentHunks doc) = {} \<and> entriesDisjoint doc)"

subsection \<open>Sample data\<close>

text \<open>
  The scenario of the testable properties: a diff of two files, file A with two hunks
  and file B with one hunk.
\<close>

definition hunkA1 :: Hunk where
  "hunkA1 = \<lparr>ref = 0, oldStart = Finite 1, oldLines = Finite 1, newStart = Finite 1, newLines = Finite 1,
             lines = [''-a'', ''+b'']\<rparr>"

definition hunkA2 :: Hunk where
  "hunkA2 = \<lparr>ref = 1, oldStart = Finite 9, oldLines = Finite 1, newStart = Finite 9, newLines = Finite 2,
             lines = ['' c'', ''+d'']\<rparr>"

definition hunkB1 :: Hunk where
  "hunkB1 = \<lparr>ref = 2, oldStart = Finite 3, oldLines = Finite 1, newStart = Finite 3, newLines = Finite 0,
             lines = [''-e'']\<rparr>"

definition fileA :: ParsedDiff where
  "fileA = \<lparr>index = None, oldFileName = Some ''a/A'', newFileName = Some ''b/A'',
            oldHeader = Some [], newHeader = Some [], hunks = [hunkA1, hunkA2]\<rparr>"

definition fileB :: ParsedDiff where
  "fileB = \<lparr>index = None, oldFileName = Some ''a/B'', newFileName = Some ''b/B'',
            oldHeader = Some [], newHeader = Some [], hunks = [hunkB1]\<rparr>"

definition sampleState :: AppState where
  "sampleState = \<lparr>diff = [fileA, fileB], labelMap = [(''L'', ''bugfix''), (''Lx'', ''style'')],
                  hunkMap = [(hunkA1, ''L''), (hunkB1, ''Lx'')], labelFilter = [],
                  newLabel = [], uuidCalls = 2\<rparr>"

text \<open>The sample with both labels renamed to the same text, and with the first label renamed to the empty text.\<close>

definition sampleSameText :: AppState where
  "sampleSameText = changeLabel ''Lx'' ''same'' (changeLabel ''L'' ''same'' sampleState)"

definition sampleEmptyText :: AppState where
  "sampleEmptyText = changeLabel ''L'' [] sampleState"

text \<open>The sample with both labels renamed to the empty text, and to \<^verbatim>\<open>__proto__\<close>.\<close>

definition sampleBothEmpty :: AppState where
  "sampleBothEmpty = changeLabel ''Lx'' [] (changeLabel ''L'' [] sampleState)"

definition sampleProtoText :: AppState where
  "sampleProtoText = changeLabel ''Lx'' ''__proto__'' (changeLabel ''L'' ''__proto__'' sampleState)"

text \<open>
  The sample after the first label has been added to the filter and deleted: its id is
  in the filter and not in the label map.
\<close>

definition sampleStaleFilter :: AppState where
  "sampleStaleFilter = removeLabel ''L'' (addToFilter ''L'' sampleState)"


text \<open>
  The state after the document exported from the sample with equal label texts has been
  written, parsed (object numbers from 3 on) and imported with the sample generator.
\<close>

definition sampleReimported :: AppState where
  "sampleReimported =
     \<lparr>diff = [fileB\<lparr>hunks := [hunkB1\<lparr>ref := 3\<rparr>]\<rparr>, fileA\<lparr>hunks := [hunkA2\<lparr>ref := 4\<rparr>]\<rparr>],
      labelMap = [(''Lxx'', ''same''), (''Lxxx'', ''undefined'')],
      hunkMap = [(hunkB1\<lparr>ref := 3\<rparr>, ''Lxx''), (hunkA2\<lparr>ref := 4\<rparr>, ''Lxxx'')],
      labelFilter = [], newLabel = [], uuidCalls = 4\<rparr>"

text \<open>A generator without collisions: \<open>L\<close>, \<open>Lx\<close>, \<open>Lxx\<close>, ...\<close>

definition sampleUuidv4 :: "nat \<Rightarrow> UUID" where
  "sampleUuidv4 n = CHR ''L'' # replicate n CHR ''x''"


section \<open>Properties of the map model\<close>

lemma Map_get_map_of: "Map_get m k = map_of m k"
  by (induction m) auto

lemma Map_get_None_iff: "Map_get m k = None \<longleftrightarrow> k \<notin> fst ` set m"
  by (simp add: Map_get_map_of map_of_eq_None_iff)

lemma Map_has_iff: "Map_has m k \<longleftrightarrow> k \<in> fst ` set m"
  using Map_get_None_iff[of m k] by (cases "Map_get m k") (auto simp: Map_has_def)

lemma Map_get_set: "Map_get (Map_set k v m) k' = (if k' = k then Some v else Map_get m k')"
  by (induction m) auto

lemma Map_set_keys:
  "map fst (Map_set k v m) = (if k \<in> fst ` set m then map fst m else map fst m @ [k])"
  by (induction m) force+

lemma keys_Map_set: "fst ` set (Map_set k v m) = insert k (fst ` set m)"
proof -
  have "set (map fst (Map_set k v m)) = insert k (set (map fst m))"
    unfolding Map_set_keys by auto
  then show ?thesis by simp
qed


lemma Map_set_absent: "k \<notin> fst ` set m \<Longrightarrow> Map_set k v m = m @ [(k, v)]"
  by (induction m) auto

lemma Map_set_present:
  "k \<in> fst ` set m \<Longrightarrow>
   \<exists>i < length m. fst (m ! i) = k \<and> (\<forall>j < i. fst (m ! j) \<noteq> k) \<and> Map_set k v m = m[i := (k, v)]"
proof (induction m)
  case Nil
  then show ?case by simp
next
  case (Cons e m)
  show ?case
  proof (cases "fst e = k")
    case True
    then have "Map_set k v (e # m) = (e # m)[0 := (k, v)]"
      by (cases e) simp
    with True show ?thesis by (intro exI[of _ 0]) simp
  next
    case False
    with Cons.prems have "k \<in> fst ` set m" by auto
    from Cons.IH[OF this] obtain i where i: "i < length m" "fst (m ! i) = k"
      "\<forall>j < i. fst (m ! j) \<noteq> k" "Map_set k v m = m[i := (k, v)]" by blast
    have "\<forall>j < Suc i. fst ((e # m) ! j) \<noteq> k"
      using False i(3) by (auto simp: nth_Cons split: nat.splits)
    moreover have "Map_set k v (e # m) = (e # m)[Suc i := (k, v)]"
      using False i(4) by (cases e) simp
    ultimately show ?thesis using i(1,2) by (intro exI[of _ "Suc i"]) simp
  qed
qed

lemma Map_get_delete: "Map_get (Map_delete k m) k' = (if k' = k then None else Map_get m k')"
  by (induction m) (auto simp: Map_delete_def)

lemma Map_delete_keys: "fst ` set (Map_delete k m) = fst ` set m - {k}"
  by (auto simp: Map_delete_def)

lemma Map_set_distinct: "distinct (map fst m) \<Longrightarrow> distinct (map fst (Map_set k v m))"
  by (simp add: Map_set_keys)

section \<open>Handlers and effects\<close>

lemmas actions_defs = labelMapActions_set_def labelMapActions_remove_def labelMapActions_reset_def
  hunkMapActions_set_def hunkMapActions_remove_def hunkMapActions_reset_def
  labelFilterActions_set_def labelFilterActions_remove_def

lemma HunkView_useEffect_frame:
  "labelMap (HunkView_useEffect st h acc) = labelMap acc
   \<and> labelFilter (HunkView_useEffect st h acc) = labelFilter acc
   \<and> diff (HunkView_useEffect st h acc) = diff acc"
  by (simp add: HunkView_useEffect_def onHunkLabelChange_def actions_defs split: option.splits)

lemma foldl_effect_frame:
  "labelMap (foldl (\<lambda>acc hunk. HunkView_useEffect st hunk acc) acc hs) = labelMap acc
   \<and> labelFilter (foldl (\<lambda>acc hunk. HunkView_useEffect st hunk acc) acc hs) = labelFilter acc
   \<and> diff (foldl (\<lambda>acc hunk. HunkView_useEffect st hunk acc) acc hs) = diff acc"
  by (induction hs arbitrary: acc) (simp_all add: HunkView_useEffect_frame)

lemma runEffects_frame:
  "labelMap (runEffects st) = labelMap st \<and> labelFilter (runEffects st) = labelFilter st
   \<and> diff (runEffects st) = diff st"
  by (simp add: runEffects_def foldl_effect_frame)

lemma HunkView_useEffect_get:
  "Map_get (hunkMap (HunkView_useEffect st h acc)) k =
     (if k = h \<and> (\<exists>L. Map_get (hunkMap st) h = Some L \<and> L \<noteq> [] \<and> L \<notin> fst ` set (labelMap st))
      then None else Map_get (hunkMap acc) k)"
  by (auto simp: HunkView_useEffect_def onHunkLabelChange_def actions_defs Map_has_iff
      Map_get_delete split: option.splits)

lemma foldl_effect_get:
  "Map_get (hunkMap (foldl (\<lambda>acc hunk. HunkView_useEffect st hunk acc) acc hs)) k =
     (if k \<in> set hs \<and> (\<exists>L. Map_get (hunkMap st) k = Some L \<and> L \<noteq> [] \<and> L \<notin> fst ` set (labelMap st))
      then None else Map_get (hunkMap acc) k)"
  by (induction hs arbitrary: acc) (auto simp: HunkView_useEffect_get)

text \<open>
  One pass of the effects removes the association of exactly those displayed hunks whose
  label id is non-empty and no longer in the label map.
\<close>

lemma runEffects_get:
  "Map_get (hunkMap (runEffects st)) k =
     (if k \<in> set (displayedHunks st)
         \<and> (\<exists>L. Map_get (hunkMap st) k = Some L \<and> L \<noteq> [] \<and> L \<notin> fst ` set (labelMap st))
      then None else Map_get (hunkMap st) k)"
  by (simp add: runEffects_def foldl_effect_get)

lemma displayedHunks_iff:
  "h \<in> set (displayedHunks st) \<longleftrightarrow> h \<in> set (allHunks st) \<and> isDisplayed st h"
  by (auto simp: displayedHunks_def allHunks_def)

lemma sampleUuidv4_inj: "inj sampleUuidv4"
proof (rule injI)
  fix m n assume "sampleUuidv4 m = sampleUuidv4 n"
  then have "length (sampleUuidv4 m) = length (sampleUuidv4 n)" by simp
  then show "m = n" by (simp add: sampleUuidv4_def)
qed

section \<open>Label deletion\<close>

text \<open>
  C2, as the source has it. \<^verbatim>\<open>removeLabel\<close> only removes the label from the label map.
  The association is removed afterwards by the effect of the hunk's \<^verbatim>\<open>HunkView\<close>, which
  exists when the hunk is displayed: for every hunk \<open>h\<close> of the diff and non-empty label
  id \<open>L\<close> such that the filter is empty or contains \<open>L\<close>, after \<open>set(h, L)\<close>, \<open>delete(L)\<close>
  and the effects of the render that follows (with or without a render between the two
  calls) the lookup of \<open>h\<close> returns absent. The filter is the one from before the two
  calls: deleting a label does not touch it.
\<close>

theorem C2_delete_cascades_to_displayed_hunks:
  assumes "h \<in> set (allHunks st)" and "L \<noteq> []"
    and "labelFilter st = [] \<or> Map_has (labelFilter st) L"
  shows "Map_get (hunkMap (runEffects (removeLabel L (runEffects (onHunkLabelChange h (Some L) st))))) h = None
    \<and> Map_get (hunkMap (runEffects (removeLabel L (onHunkLabelChange h (Some L) st)))) h = None
    \<and> labelFilter (runEffects (removeLabel L (runEffects (onHunkLabelChange h (Some L) st)))) = labelFilter st"
proof -
  let ?s1 = "onHunkLabelChange h (Some L) st"
  have s1: "Map_get (hunkMap ?s1) h = Some L" "labelFilter ?s1 = labelFilter st" "diff ?s1 = diff st"
    by (simp_all add: onHunkLabelChange_def actions_defs Map_get_set)
  have after: "Map_get (hunkMap (runEffects (removeLabel L s))) h = None"
    if "diff s = diff st" "labelFilter s = labelFilter st"
      "Map_get (hunkMap s) h = Some L \<or> Map_get (hunkMap s) h = None" for s
  proof -
    let ?r = "removeLabel L s"
    have r: "hunkMap ?r = hunkMap s" "labelFilter ?r = labelFilter st" "diff ?r = diff st"
      "L \<notin> fst ` set (labelMap ?r)"
      using that by (simp_all add: removeLabel_def actions_defs Map_delete_keys)
    show ?thesis
    proof (cases "Map_get (hunkMap s) h")
      case None
      then show ?thesis by (simp add: runEffects_get r)
    next
      case (Some a)
      with that have get: "Map_get (hunkMap ?r) h = Some L" by (simp add: r)
      have "isDisplayed ?r h"
        using assms(3) get by (auto simp: isDisplayed_def r Map_size_def)
      moreover have "h \<in> set (allHunks ?r)"
        using assms(1) by (simp add: allHunks_def r)
      ultimately have "h \<in> set (displayedHunks ?r)" by (simp add: displayedHunks_iff)
      then show ?thesis using get r(4) assms(2) by (simp add: runEffects_get)
    qed
  qed
  have e1: "Map_get (hunkMap (runEffects ?s1)) h = Some L \<or> Map_get (hunkMap (runEffects ?s1)) h = None"
    using s1(1) by (simp add: runEffects_get)
  have "Map_get (hunkMap (runEffects (removeLabel L (runEffects ?s1)))) h = None"
    using after[of "runEffects ?s1"] e1 s1 by (simp add: runEffects_frame)
  moreover have "Map_get (hunkMap (runEffects (removeLabel L ?s1))) h = None"
    using after[of ?s1] s1 by simp
  moreover have "labelFilter (runEffects (removeLabel L (runEffects ?s1))) = labelFilter st"
    by (simp add: runEffects_frame removeLabel_def actions_defs s1)
  ultimately show ?thesis by simp
qed

text \<open>
  The theorem at the label \<open>L\<close> of the sample, added to the filter, and the unassociated
  hunk A2.
\<close>

theorem C2_delete_cascades_witness:
  "hunkA2 \<in> set (allHunks (addToFilter ''L'' sampleState)) \<and> ''L'' \<noteq> []
   \<and> Map_has (labelFilter (addToFilter ''L'' sampleState)) ''L''
   \<and> Map_get (hunkMap (runEffects (removeLabel ''L'' (runEffects
        (onHunkLabelChange hunkA2 (Some ''L'') (addToFilter ''L'' sampleState)))))) hunkA2 = None"
proof -
  have 1: "hunkA2 \<in> set (allHunks (addToFilter ''L'' sampleState))"
    by (simp add: allHunks_def addToFilter_def actions_defs sampleState_def fileA_def)
  have 2: "''L'' \<noteq> []" by simp
  have 3: "Map_has (labelFilter (addToFilter ''L'' sampleState)) ''L''"
    by (simp add: addToFilter_def actions_defs sampleState_def Map_has_def)
  from C2_delete_cascades_to_displayed_hunks[OF 1 2 disjI2[OF 3]] 1 3 show ?thesis by simp
qed

text \<open>
  The claim as it is written fails: a label that was added to the filter is still in
  the filter after it has been deleted and the effects have run.
\<close>

theorem C2_filter_keeps_deleted_label:
  "Map_has (labelFilter (runEffects (removeLabel ''L'' (runEffects
      (onHunkLabelChange hunkA2 (Some ''L'') (addToFilter ''L'' sampleState)))))) ''L''"
  by (simp add: runEffects_frame removeLabel_def onHunkLabelChange_def addToFilter_def
      actions_defs sampleState_def Map_has_def)

section \<open>Loading\<close>




lemma forEach_parsedDiffs_throws:
  "(\<exists>st'. forEach_parsedDiffs v ds st = Inl (TypeError, st'))
     \<longleftrightarrow> \<not> list_all (\<lambda>d. case d of Other \<Rightarrow> False | Ok x \<Rightarrow> True) ds"
  "forEach_parsedDiffs v ds st = Inl (e, st') \<Longrightarrow> e = TypeError"
  by (induction ds arbitrary: st) (auto split: checked.splits)



lemma forEach_entries_throws:
  "\<not> list_all (\<lambda>(label, parsedDiffs). case parsedDiffs of Other \<Rightarrow> False
        | Ok ds \<Rightarrow> list_all (\<lambda>d. case d of Other \<Rightarrow> False | Ok x \<Rightarrow> True) ds) entries
   \<Longrightarrow> \<exists>st'. forEach_entries uuidv4 entries (result, st) = Inl (TypeError, st')"
proof (induction entries arbitrary: result st)
  case Nil
  then show ?case by simp
next
  case (Cons en entries)
  obtain label v where en: "en = (label, v)" by (cases en)
  obtain u st1 where lab: "importLabel uuidv4 label st = (u, st1)" by (cases "importLabel uuidv4 label st")
  show ?case
  proof (cases v)
    case Other
    then show ?thesis by (simp add: en lab)
  next
    case (Ok ds)
    show ?thesis
    proof (cases "list_all (\<lambda>d. case d of Other \<Rightarrow> False | Ok x \<Rightarrow> True) ds")
      case False
      with forEach_parsedDiffs_throws(1)[of u ds st1] obtain s where
        "forEach_parsedDiffs u ds st1 = Inl (TypeError, s)" by blast
      then show ?thesis by (simp add: en lab Ok)
    next
      case True
      with forEach_parsedDiffs_throws(1)[of u ds st1]
      have "\<not> (\<exists>s. forEach_parsedDiffs u ds st1 = Inl (TypeError, s))" by simp
      moreover have "\<And>e s. forEach_parsedDiffs u ds st1 = Inl (e, s) \<Longrightarrow> e = TypeError"
        by (rule forEach_parsedDiffs_throws(2))
      ultimately obtain st2 where st2: "forEach_parsedDiffs u ds st1 = Inr st2"
        by (cases "forEach_parsedDiffs u ds st1") auto
      from Cons.prems en Ok True
      have "\<not> list_all (\<lambda>(label, parsedDiffs). case parsedDiffs of Other \<Rightarrow> False
        | Ok ds \<Rightarrow> list_all (\<lambda>d. case d of Other \<Rightarrow> False | Ok x \<Rightarrow> True) ds) entries" by simp
      from Cons.IH[OF this, of "result @ okValues ds" st2] show ?thesis
        by (simp add: en lab Ok st2)
    qed
  qed
qed

lemma forEach_entries_returns:
  "list_all (\<lambda>(label, parsedDiffs). case parsedDiffs of Other \<Rightarrow> False
        | Ok ds \<Rightarrow> list_all (\<lambda>d. case d of Other \<Rightarrow> False | Ok x \<Rightarrow> True) ds) entries
   \<Longrightarrow> \<exists>result' st'. forEach_entries uuidv4 entries (result, st) = Inr (result', st')"
proof (induction entries arbitrary: result st)
  case Nil
  then show ?case by simp
next
  case (Cons en entries)
  obtain label v where en: "en = (label, v)" by (cases en)
  obtain u st1 where lab: "importLabel uuidv4 label st = (u, st1)" by (cases "importLabel uuidv4 label st")
  from Cons.prems en obtain ds where v: "v = Ok ds"
    and ds: "list_all (\<lambda>d. case d of Other \<Rightarrow> False | Ok x \<Rightarrow> True) ds"
    by (cases v) auto
  from ds forEach_parsedDiffs_throws(1)[of u ds st1]
  have "\<not> (\<exists>s. forEach_parsedDiffs u ds st1 = Inl (TypeError, s))" by simp
  moreover have "\<And>e s. forEach_parsedDiffs u ds st1 = Inl (e, s) \<Longrightarrow> e = TypeError"
    by (rule forEach_parsedDiffs_throws(2))
  ultimately obtain st2 where st2: "forEach_parsedDiffs u ds st1 = Inr st2"
    by (cases "forEach_parsedDiffs u ds st1") auto
  from Cons.prems have "list_all (\<lambda>(label, parsedDiffs). case parsedDiffs of Other \<Rightarrow> False
        | Ok ds \<Rightarrow> list_all (\<lambda>d. case d of Other \<Rightarrow> False | Ok x \<Rightarrow> True) ds) entries" by simp
  from Cons.IH[OF this, of "result @ okValues ds" st2] show ?case
    by (simp add: en lab v st2)
qed

text \<open>
  The loads that fail are those on which the parser of the mode throws and those of a
  text that parses as JSON to a value on which the import loop throws.
\<close>

lemma setRawData_fails_iff:
  "(\<exists>e st'. setRawData uuidv4 rd st = Inl (e, st')) \<longleftrightarrow>
     (isJSON rd \<and> (\<exists>e. JSON_parse_text rd = Inl e))
     \<or> (isJSON rd \<and> (\<exists>data. JSON_parse_text rd = Inr data \<and> \<not> wellShaped data))
     \<or> (\<not> isJSON rd \<and> (\<exists>e. parsePatch_text rd = Inl e))"
proof (cases "isJSON rd")
  case False
  then show ?thesis
    by (cases "parsePatch_text rd") (simp_all add: setRawData_def diff_useMemo_def)
next
  case True
  show ?thesis
  proof (cases "JSON_parse_text rd")
    case (Inl e)
    with True show ?thesis by (simp add: setRawData_def diff_useMemo_def)
  next
    case (Inr data)
    show ?thesis
    proof (cases data)
      case Other
      with True Inr show ?thesis by (simp add: setRawData_def diff_useMemo_def wellShaped_def)
    next
      case (Ok entries)
      let ?st2 = "labelMapActions_reset (hunkMapActions_reset st)"
      show ?thesis
      proof (cases "wellShaped data")
        case wf: True
        with Ok forEach_entries_returns[of entries uuidv4 "[]" ?st2] obtain r s where
          "forEach_entries uuidv4 entries ([], ?st2) = Inr (r, s)" by (auto simp: wellShaped_def)
        with True Inr Ok wf show ?thesis by (simp add: setRawData_def diff_useMemo_def)
      next
        case nwf: False
        with Ok forEach_entries_throws[of entries uuidv4 "[]" ?st2] obtain s where
          "forEach_entries uuidv4 entries ([], ?st2) = Inl (TypeError, s)" by (auto simp: wellShaped_def)
        with True Inr Ok nwf show ?thesis by (simp add: setRawData_def diff_useMemo_def)
      qed
    qed
  qed
qed




text \<open>
  C4, as the source has it. \<^verbatim>\<open>labelMapActions.reset()\<close> stands in the JSON branch only.
  For every load of unified-diff input that parses, the association map is reset to
  empty whatever it held, the parsed file diffs become the working diff, and the label
  map (as the filter) is left as it was.
\<close>

theorem C4_diff_load_resets_associations_only:
  assumes "\<not> isJSON rd" and "parsePatch_text rd = Inr parsed"
  shows "setRawData uuidv4 rd st = Inr (st\<lparr>hunkMap := [], diff := parsed\<rparr>)"
  using assms by (auto simp: setRawData_def diff_useMemo_def actions_defs)

theorem C4_diff_load_witness:
  "\<not> isJSON \<lparr>isJSON = False, JSON_parse_text = Inl SyntaxError, parsePatch_text = Inr [fileB]\<rparr>
   \<and> setRawData sampleUuidv4
        \<lparr>isJSON = False, JSON_parse_text = Inl SyntaxError, parsePatch_text = Inr [fileB]\<rparr> sampleState
      = Inr (sampleState\<lparr>hunkMap := [], diff := [fileB]\<rparr>)"
  using C4_diff_load_resets_associations_only[of
      "\<lparr>isJSON = False, JSON_parse_text = Inl SyntaxError, parsePatch_text = Inr [fileB]\<rparr>"
      "[fileB]" sampleUuidv4 sampleState]
  by simp

text \<open>
  The claim as it is written fails: after a unified diff has been loaded over the sample
  state, the label map still holds the two labels.
\<close>

theorem C4_diff_load_keeps_labels:
  "setRawData sampleUuidv4
      \<lparr>isJSON = False, JSON_parse_text = Inl SyntaxError, parsePatch_text = Inr [fileB]\<rparr> sampleState
     = Inr (sampleState\<lparr>hunkMap := [], diff := [fileB]\<rparr>)
   \<and> labelMap (sampleState\<lparr>hunkMap := [], diff := [fileB]\<rparr>) = [(''L'', ''bugfix''), (''Lx'', ''style'')]"
  by (simp add: setRawData_def diff_useMemo_def actions_defs sampleState_def)

section \<open>Renaming\<close>

lemma LabelView_mount_frame:
  "labelMap (LabelView_useEffect b u acc) = labelMap acc
   \<and> hunkMap (LabelView_useEffect b u acc) = hunkMap acc
   \<and> diff (LabelView_useEffect b u acc) = diff acc"
  by (simp add: LabelView_useEffect_def addToFilter_def removeFromFilter_def actions_defs)

lemma foldl_mount_frame:
  "labelMap (foldl (\<lambda>acc' (id', label).
        if Map_has m id' then acc' else LabelView_useEffect False id' acc') acc es) = labelMap acc
   \<and> hunkMap (foldl (\<lambda>acc' (id', label).
        if Map_has m id' then acc' else LabelView_useEffect False id' acc') acc es) = hunkMap acc
   \<and> diff (foldl (\<lambda>acc' (id', label).
        if Map_has m id' then acc' else LabelView_useEffect False id' acc') acc es) = diff acc"
  by (induction es arbitrary: acc) (auto simp: LabelView_mount_frame)

text \<open>The label views that a render mounts change the filter only.\<close>

lemma mountLabelViews_frame:
  "labelMap (mountLabelViews prev st acc) = labelMap acc
   \<and> hunkMap (mountLabelViews prev st acc) = hunkMap acc
   \<and> diff (mountLabelViews prev st acc) = diff acc"
  by (simp add: mountLabelViews_def foldl_mount_frame)

lemma foldl_mount_present:
  "fst ` set es \<subseteq> fst ` set m \<Longrightarrow>
   foldl (\<lambda>acc' (id', label).
        if Map_has m id' then acc' else LabelView_useEffect False id' acc') acc es = acc"
proof (induction es arbitrary: acc)
  case Nil
  then show ?case by simp
next
  case (Cons e es)
  obtain u t where e: "e = (u, t)" by (cases e)
  with Cons.prems have "Map_has m u" by (simp add: Map_has_iff)
  with Cons e show ?case by simp
qed

text \<open>
  After the rename of an id that is not in the label map, the one view that is mounted
  is that of the id, and its effect removes the id from the filter.
\<close>

lemma mountLabelViews_changeLabel_absent:
  assumes "\<not> Map_has (labelMap st) L"
  shows "labelFilter (mountLabelViews st (changeLabel L newText st) acc) = Map_delete L (labelFilter acc)"
proof -
  from assms have "labelEntries (changeLabel L newText st) = labelMap st @ [(L, newText)]"
    by (simp add: changeLabel_def actions_defs labelEntries_def Map_has_iff Map_set_absent)
  then show ?thesis
    using assms
    by (simp add: mountLabelViews_def foldl_mount_present LabelView_useEffect_def
        removeFromFilter_def actions_defs)
qed

text \<open>
  C7, as the source has it. \<^verbatim>\<open>changeLabel\<close> is \<^verbatim>\<open>Map.set\<close>: for every id that is not in
  the label map and every text, renaming raises no error and appends the id with the
  text as a new last label; associations and diff are left as they are. The render that
  follows mounts the \<^verbatim>\<open>LabelView\<close> of the new label, whose effect removes the id from the
  filter: after the effects of that render the label is still there as the last one,
  the filter is the old filter without the id, the diff is the same, and every hunk
  that was associated with the id still is.
\<close>

theorem C7_rename_absent_id_inserts:
  assumes "\<not> Map_has (labelMap st) L"
  shows "labelEntries (changeLabel L newText st) = labelEntries st @ [(L, newText)]
    \<and> hunkMap (changeLabel L newText st) = hunkMap st
    \<and> diff (changeLabel L newText st) = diff st
    \<and> labelEntries (afterRender st (changeLabel L newText st)) = labelEntries st @ [(L, newText)]
    \<and> labelFilter (afterRender st (changeLabel L newText st)) = Map_delete L (labelFilter st)
    \<and> diff (afterRender st (changeLabel L newText st)) = diff st
    \<and> (\<forall>h. Map_get (hunkMap st) h = Some L \<longrightarrow>
          Map_get (hunkMap (afterRender st (changeLabel L newText st))) h = Some L)"
proof -
  let ?st = "changeLabel L newText st"
  have 1: "labelEntries ?st = labelEntries st @ [(L, newText)]" "hunkMap ?st = hunkMap st"
    "diff ?st = diff st" "labelFilter ?st = labelFilter st"
    using assms by (simp_all add: changeLabel_def actions_defs labelEntries_def Map_has_iff Map_set_absent)
  have 2: "labelEntries (afterRender st ?st) = labelEntries ?st" "diff (afterRender st ?st) = diff ?st"
    "hunkMap (afterRender st ?st) = hunkMap (runEffects ?st)"
    by (simp_all add: afterRender_def labelEntries_def mountLabelViews_frame runEffects_frame)
  have 3: "labelFilter (afterRender st ?st) = Map_delete L (labelFilter st)"
    using mountLabelViews_changeLabel_absent[OF assms, of newText "runEffects ?st"] 1(4)
    by (simp add: afterRender_def runEffects_frame)
  have 4: "Map_get (hunkMap (afterRender st ?st)) h = Some L" if "Map_get (hunkMap st) h = Some L" for h
  proof -
    have "L \<in> fst ` set (labelMap ?st)"
      using 1(1) by (simp add: labelEntries_def)
    with that 1(2) show ?thesis by (simp add: 2(3) runEffects_get)
  qed
  from 1 2 3 4 show ?thesis by simp
qed

theorem C7_rename_absent_id_witness:
  "\<not> Map_has (labelMap sampleStaleFilter) ''L''
   \<and> Map_has (labelFilter sampleStaleFilter) ''L''
   \<and> Map_get (hunkMap sampleStaleFilter) hunkA1 = Some ''L''
   \<and> labelEntries (changeLabel ''L'' ''docs'' sampleStaleFilter) = [(''Lx'', ''style''), (''L'', ''docs'')]
   \<and> labelEntries (afterRender sampleStaleFilter (changeLabel ''L'' ''docs'' sampleStaleFilter))
      = [(''Lx'', ''style''), (''L'', ''docs'')]
   \<and> labelFilter (afterRender sampleStaleFilter (changeLabel ''L'' ''docs'' sampleStaleFilter)) = []
   \<and> Map_get (hunkMap (afterRender sampleStaleFilter (changeLabel ''L'' ''docs'' sampleStaleFilter))) hunkA1
      = Some ''L''"
proof -
  have 1: "\<not> Map_has (labelMap sampleStaleFilter) ''L''"
    by (simp add: sampleStaleFilter_def removeLabel_def addToFilter_def actions_defs sampleState_def Map_delete_def
        Map_has_def)
  have 2: "Map_get (hunkMap sampleStaleFilter) hunkA1 = Some ''L''"
    "labelEntries sampleStaleFilter = [(''Lx'', ''style'')]"
    "labelFilter sampleStaleFilter = [(''L'', ())]"
    by (simp_all add: sampleStaleFilter_def removeLabel_def addToFilter_def actions_defs sampleState_def Map_delete_def
        labelEntries_def)
  from C7_rename_absent_id_inserts[OF 1, of "''docs''"] 1 2 show ?thesis
    by (simp add: Map_has_def Map_delete_def)
qed

text \<open>The claim as it is written fails: the rename of an absent id changes the label map.\<close>

theorem C7_rename_absent_id_changes_labels:
  "\<not> Map_has (labelMap sampleState) ''Lxx''
   \<and> labelMap (changeLabel ''Lxx'' ''docs'' sampleState) \<noteq> labelMap sampleState"
  by (simp add: changeLabel_def actions_defs sampleState_def Map_has_def)

text \<open>
  C8. For every label \<open>L\<close> of the label map, renaming changes nothing but the text of
  \<open>L\<close>: associations, filter and diff are the same; the list of labels is the old list
  with the entry of \<open>L\<close>, at its old position, now carrying the new text; and every hunk
  that was associated with \<open>L\<close> is still associated with \<open>L\<close>, also after the effects
  of the render that follows have run.
\<close>

theorem C8_rename_preserves_identity:
  assumes "Map_has (labelMap st) L"
  shows "hunkMap (changeLabel L newText st) = hunkMap st
    \<and> labelFilter (changeLabel L newText st) = labelFilter st
    \<and> diff (changeLabel L newText st) = diff st
    \<and> (\<forall>h. Map_get (hunkMap st) h = Some L \<longrightarrow>
          Map_get (hunkMap (runEffects (changeLabel L newText st))) h = Some L)
    \<and> (\<exists>i < length (labelEntries st).
          fst (labelEntries st ! i) = L \<and> (\<forall>j < i. fst (labelEntries st ! j) \<noteq> L)
          \<and> labelEntries (changeLabel L newText st) = (labelEntries st)[i := (L, newText)])
    \<and> labelEntries (runEffects (changeLabel L newText st)) = labelEntries (changeLabel L newText st)"
proof -
  let ?st' = "changeLabel L newText st"
  have in_keys: "L \<in> fst ` set (labelMap st)"
    using assms by (simp add: Map_has_iff)
  have "map fst (labelMap ?st') = map fst (labelMap st)"
    using in_keys by (simp add: changeLabel_def actions_defs Map_set_keys)
  then have "set (map fst (labelMap ?st')) = set (map fst (labelMap st))" by simp
  then have keys: "fst ` set (labelMap ?st') = fst ` set (labelMap st)" by simp
  have frame: "hunkMap ?st' = hunkMap st" "labelFilter ?st' = labelFilter st" "diff ?st' = diff st"
    by (simp_all add: changeLabel_def actions_defs)
  have "\<forall>h. Map_get (hunkMap st) h = Some L \<longrightarrow> Map_get (hunkMap (runEffects ?st')) h = Some L"
    using in_keys keys by (auto simp: runEffects_get frame)
  moreover obtain i where "i < length (labelMap st)" "fst (labelMap st ! i) = L"
      "\<forall>j < i. fst (labelMap st ! j) \<noteq> L"
      "Map_set L newText (labelMap st) = (labelMap st)[i := (L, newText)]"
    using Map_set_present[OF in_keys] by blast
  then have "\<exists>i < length (labelEntries st). fst (labelEntries st ! i) = L
          \<and> (\<forall>j < i. fst (labelEntries st ! j) \<noteq> L)
          \<and> labelEntries ?st' = (labelEntries st)[i := (L, newText)]"
    by (auto simp: labelEntries_def changeLabel_def actions_defs)
  ultimately show ?thesis
    using frame by (simp add: labelEntries_def runEffects_frame)
qed

theorem C8_rename_preserves_identity_witness:
  "Map_has (labelMap sampleState) ''L''
   \<and> Map_get (hunkMap sampleState) hunkA1 = Some ''L''
   \<and> Map_get (hunkMap (runEffects (changeLabel ''L'' ''new'' sampleState))) hunkA1 = Some ''L''
   \<and> hunkMap (changeLabel ''L'' ''new'' sampleState) = hunkMap sampleState
   \<and> labelEntries (changeLabel ''L'' ''new'' sampleState) = [(''L'', ''new''), (''Lx'', ''style'')]"
proof -
  have 1: "Map_has (labelMap sampleState) ''L''"
    by (simp add: sampleState_def Map_has_def)
  have 2: "Map_get (hunkMap sampleState) hunkA1 = Some ''L''"
    by (simp add: sampleState_def)
  have 3: "labelEntries (changeLabel ''L'' ''new'' sampleState) = [(''L'', ''new''), (''Lx'', ''style'')]"
    by (simp add: labelEntries_def changeLabel_def actions_defs sampleState_def)
  from C8_rename_preserves_identity[OF 1, of "''new''"] 1 2 3 show ?thesis by simp
qed

section \<open>Filter visibility\<close>

text \<open>
  C6. A hunk of the loaded diff is displayed if and only if the filter is empty, or the
  hunk has no association, or the filter contains the label id the hunk is associated
  with. In particular a hunk without association is displayed under every filter, and
  with an empty filter every hunk of the diff is displayed, in the order of the diff.
\<close>

theorem C6_filter_visibility:
  "(h \<in> set (displayedHunks st) \<longleftrightarrow>
      h \<in> set (allHunks st) \<and>
      (labelFilter st = [] \<or> h \<notin> fst ` set (hunkMap st)
       \<or> (\<exists>L. map_of (hunkMap st) h = Some L \<and> L \<in> fst ` set (labelFilter st))))
   \<and> (h \<in> set (allHunks st) \<and> map_of (hunkMap st) h = None \<longrightarrow> h \<in> set (displayedHunks st))
   \<and> (labelFilter st = [] \<longrightarrow> displayedHunks st = allHunks st)"
proof (intro conjI impI)
  show "h \<in> set (displayedHunks st) \<longleftrightarrow>
      h \<in> set (allHunks st) \<and>
      (labelFilter st = [] \<or> h \<notin> fst ` set (hunkMap st)
       \<or> (\<exists>L. map_of (hunkMap st) h = Some L \<and> L \<in> fst ` set (labelFilter st)))"
    by (auto simp: displayedHunks_def allHunks_def isDisplayed_def Map_size_def Map_has_iff
        Map_get_map_of split: option.splits)
next
  assume "h \<in> set (allHunks st) \<and> map_of (hunkMap st) h = None"
  then show "h \<in> set (displayedHunks st)"
    by (auto simp: displayedHunks_def allHunks_def isDisplayed_def Map_has_def Map_get_map_of)
next
  assume "labelFilter st = []"
  then have "isDisplayed st = (\<lambda>_. True)"
    by (simp add: isDisplayed_def Map_size_def fun_eq_iff)
  then show "displayedHunks st = allHunks st"
    by (simp add: displayedHunks_def allHunks_def)
qed

theorem C6_filter_visibility_witness:
  "hunkA2 \<in> set (allHunks (addToFilter ''L'' sampleState))
   \<and> map_of (hunkMap (addToFilter ''L'' sampleState)) hunkA2 = None
   \<and> hunkA2 \<in> set (displayedHunks (addToFilter ''L'' sampleState))
   \<and> hunkB1 \<notin> set (displayedHunks (addToFilter ''L'' sampleState))
   \<and> labelFilter sampleState = []
   \<and> displayedHunks sampleState = allHunks sampleState"
proof -
  let ?st = "addToFilter ''L'' sampleState"
  have 1: "hunkA2 \<in> set (allHunks ?st)"
    by (simp add: allHunks_def addToFilter_def actions_defs sampleState_def fileA_def)
  have 2: "map_of (hunkMap ?st) hunkA2 = None"
    by (simp add: addToFilter_def actions_defs sampleState_def hunkA1_def hunkA2_def hunkB1_def)
  have 3: "labelFilter ?st \<noteq> []" "hunkB1 \<in> fst ` set (hunkMap ?st)"
    "\<not> (\<exists>L. map_of (hunkMap ?st) hunkB1 = Some L \<and> L \<in> fst ` set (labelFilter ?st))"
    by (simp_all add: addToFilter_def actions_defs sampleState_def hunkA1_def hunkB1_def)
  have 4: "labelFilter sampleState = []"
    by (simp add: sampleState_def)
  from C6_filter_visibility[of hunkA2 ?st] 1 2
  have a: "hunkA2 \<in> set (displayedHunks ?st)" by blast
  from C6_filter_visibility[of hunkB1 ?st] 3
  have b: "hunkB1 \<notin> set (displayedHunks ?st)" by blast
  from C6_filter_visibility[of hunkA2 sampleState] 4
  have c: "displayedHunks sampleState = allHunks sampleState" by blast
  from 1 2 4 a b c show ?thesis by blast
qed

section \<open>The grouping of \<^verbatim>\<open>exportAsJSON\<close>\<close>

lemma Map_set_set: "Map_set k v (Map_set k v0 m) = Map_set k v m"
  by (induction m) auto

lemma syntheticDiffOf_Cons: "syntheticDiffOf (p # ps) = (fst p)\<lparr>hunks := map snd (p # ps)\<rparr>"
  by (cases p) (simp add: syntheticDiffOf_def)

lemma hunks_syntheticDiffOf: "hunks (syntheticDiffOf g) = map snd g"
  by (cases g) (auto simp: syntheticDiffOf_def)

lemma firstOccurrences_snoc:
  "firstOccurrences (xs @ [x]) = (if x \<in> set xs then firstOccurrences xs else firstOccurrences xs @ [x])"
  by (simp add: firstOccurrences_def)

lemma set_firstOccurrences [simp]: "set (firstOccurrences xs) = set xs"
  by (simp add: firstOccurrences_def)

lemma distinct_firstOccurrences [simp]: "distinct (firstOccurrences xs)"
  by (simp add: firstOccurrences_def)

lemma firstOccurrences_Nil [simp]: "firstOccurrences [] = []"
  by (simp add: firstOccurrences_def)

text \<open>Grouping by repeated \<open>Map_set\<close> at a computed key.\<close>

lemma group_fold_keys:
  "map fst (foldl (\<lambda>m p. Map_set (g p) (f (Map_get m (g p)) p) m) [] ps) = firstOccurrences (map g ps)"
proof (induction ps rule: rev_induct)
  case Nil
  then show ?case by simp
next
  case (snoc p ps)
  then show ?case
    by (simp add: Map_set_keys firstOccurrences_snoc del: set_map)
      (metis image_set set_firstOccurrences list.set_map)
qed

lemma group_fold_get:
  "Map_get (foldl (\<lambda>m p. Map_set (g p) (f (Map_get m (g p)) p) m) [] ps) k
     = foldl (\<lambda>v q. Some (f v q)) None (filter (\<lambda>p. g p = k) ps)"
  by (induction ps rule: rev_induct) (auto simp: Map_get_set)

lemma alist_by_keys:
  "distinct (map fst m) \<Longrightarrow> m = map (\<lambda>k. (k, the (Map_get m k))) (map fst m)"
proof (induction m)
  case Nil
  then show ?case by simp
next
  case (Cons e m)
  have "map (\<lambda>k. (k, the (Map_get (e # m) k))) (map fst m) = map (\<lambda>k. (k, the (Map_get m k))) (map fst m)"
    using Cons.prems by (cases e) (auto simp: image_iff)
  with Cons show ?case by (cases e) simp
qed

lemma exportHunk_eq:
  "exportHunk st fd m h = Map_set (uuidOf st h) (pushHunk (Map_get m (uuidOf st h)) (fd, h)) m"
  by (auto simp: exportHunk_def uuidOf_def keyOf_def Let_def Map_has_def Map_get_set Map_set_set
        pushHunk_def pushSynthetic_def
      split: option.splits)

lemma exportMap_traversal:
  "exportMap st = foldl (\<lambda>m p. Map_set (uuidOf st (snd p)) (pushHunk (Map_get m (uuidOf st (snd p))) p) m) [] (traversal st)"
proof -
  let ?step = "\<lambda>m p. Map_set (uuidOf st (snd p)) (pushHunk (Map_get m (uuidOf st (snd p))) p) m"
  have inner: "foldl ?step m (map (Pair fd) hs) = foldl (exportHunk st fd) m hs"
    for m fd hs by (induction hs arbitrary: m) (auto simp: exportHunk_eq)
  have "foldl ?step m (concat (map (\<lambda>fd. map (Pair fd) (hunks fd)) ds))
      = foldl (\<lambda>m fd. foldl (exportHunk st fd) m (hunks fd)) m ds" for m ds
    by (induction ds arbitrary: m) (auto simp: inner)
  then show ?thesis by (simp add: exportMap_def traversal_def)
qed

lemma pushSynthetic_fold:
  "foldl (\<lambda>v q. Some (pushSynthetic v q)) None qs = (if qs = [] then None else Some (syntheticDiffOf qs))"
proof (induction qs rule: rev_induct)
  case Nil
  then show ?case by simp
next
  case (snoc q qs)
  then show ?case
    by (cases qs) (auto simp: pushSynthetic_def syntheticDiffOf_Cons hunks_syntheticDiffOf)
qed

lemma pushHunk_step:
  "pushHunk (Some m) p = Map_set (keyOf (fst p)) (pushSynthetic (Map_get m (keyOf (fst p))) p) m"
  "pushHunk None p = [(keyOf (fst p), pushSynthetic None p)]"
  by (simp_all add: pushHunk_def)

lemma pushHunk_fold:
  "foldl (\<lambda>v q. Some (pushHunk v q)) None qs =
     (if qs = [] then None
      else Some (foldl (\<lambda>m p. Map_set (keyOf (fst p)) (pushSynthetic (Map_get m (keyOf (fst p))) p) m) [] qs))"
proof (induction qs rule: rev_induct)
  case Nil
  then show ?case by simp
next
  case (snoc q qs)
  then show ?case by (auto simp: pushHunk_step)
qed

lemma innerMap_fold:
  "foldl (\<lambda>m p. Map_set (keyOf (fst p)) (pushSynthetic (Map_get m (keyOf (fst p))) p) m) [] qs
     = map (\<lambda>k. (k, syntheticDiffOf (filter (\<lambda>p. keyOf (fst p) = k) qs)))
         (firstOccurrences (map (keyOf \<circ> fst) qs))"
proof -
  let ?m = "foldl (\<lambda>m p. Map_set (keyOf (fst p)) (pushSynthetic (Map_get m (keyOf (fst p))) p) m) [] qs"
  have keys: "map fst ?m = firstOccurrences (map (keyOf \<circ> fst) qs)"
    using group_fold_keys[of "\<lambda>p. keyOf (fst p)" pushSynthetic qs] by (simp add: comp_def)
  have get: "Map_get ?m k = Some (syntheticDiffOf (filter (\<lambda>p. keyOf (fst p) = k) qs))"
    if "k \<in> set (map (keyOf \<circ> fst) qs)" for k
  proof -
    from that have "filter (\<lambda>p. keyOf (fst p) = k) qs \<noteq> []"
      by (auto simp: filter_empty_conv)
    then show ?thesis
      using group_fold_get[of "\<lambda>p. keyOf (fst p)" pushSynthetic qs k]
      by (simp add: pushSynthetic_fold)
  qed
  have "distinct (map fst ?m)" by (simp add: keys)
  from alist_by_keys[OF this] have "?m = map (\<lambda>k. (k, the (Map_get ?m k))) (firstOccurrences (map (keyOf \<circ> fst) qs))"
    by (simp only: keys)
  also have "\<dots> = map (\<lambda>k. (k, syntheticDiffOf (filter (\<lambda>p. keyOf (fst p) = k) qs)))
         (firstOccurrences (map (keyOf \<circ> fst) qs))"
    by (rule map_cong) (simp_all add: get del: set_map)
  finally show ?thesis .
qed

lemma exportMap_refines:
  "exportMap st = exportMap_spec st"
proof -
  let ?inner = "\<lambda>qs. foldl (\<lambda>m p. Map_set (keyOf (fst p)) (pushSynthetic (Map_get m (keyOf (fst p))) p) m) [] qs"
  let ?us = "firstOccurrences (map (uuidOf st \<circ> snd) (traversal st))"
  let ?grp = "\<lambda>u. filter (\<lambda>p. uuidOf st (snd p) = u) (traversal st)"
  have keys: "map fst (exportMap st) = ?us"
    using group_fold_keys[of "\<lambda>p. uuidOf st (snd p)" pushHunk "traversal st"]
    by (simp add: exportMap_traversal comp_def)
  have get: "Map_get (exportMap st) u = Some (?inner (?grp u))" if "u \<in> set ?us" for u
  proof -
    from that have "?grp u \<noteq> []" by (auto simp: filter_empty_conv)
    then show ?thesis
      using group_fold_get[of "\<lambda>p. uuidOf st (snd p)" pushHunk "traversal st" u]
      by (simp add: exportMap_traversal pushHunk_fold)
  qed
  have "distinct (map fst (exportMap st))" by (simp add: keys)
  from alist_by_keys[OF this]
  have "exportMap st = map (\<lambda>u. (u, the (Map_get (exportMap st) u))) ?us"
    by (simp only: keys)
  also have "\<dots> = map (\<lambda>u. (u, ?inner (?grp u))) ?us"
    by (rule map_cong) (simp_all add: get del: set_firstOccurrences)
  also have "\<dots> = exportMap_spec st"
  proof -
    have a: "filter (\<lambda>p. keyOf (fst p) = k) (filter (\<lambda>(fileDiff, hunk). uuidOf st hunk = u) (traversal st))
        = groupOf st u k" for u k
      by (auto simp: groupOf_def case_prod_unfold intro: filter_cong)
    have b: "?grp u = filter (\<lambda>(fileDiff, hunk). uuidOf st hunk = u) (traversal st)" for u
      by (simp add: case_prod_unfold)
    show ?thesis
      unfolding exportMap_spec_def innerMap_fold b a ..
  qed
  finally show ?thesis .
qed

section \<open>The object\<close>

lemma map_of_Map_set: "map_of (Map_set k v m) = (map_of m)(k \<mapsto> v)"
  by (rule ext) (simp add: Map_get_map_of[symmetric] Map_get_set)

lemma map_of_insertIndexed:
  "k \<notin> fst ` set obj \<Longrightarrow> map_of (insertIndexed k v obj) = (map_of obj)(k \<mapsto> v)"
  by (induction obj) (auto simp: fun_upd_twist)

lemma mset_insertIndexed: "mset (insertIndexed k v obj) = add_mset (k, v) (mset obj)"
  by (induction obj) auto

lemma set_insertIndexed: "set (insertIndexed k v obj) = insert (k, v) (set obj)"
  by (induction obj) (auto split: if_splits)

lemma keys_insertIndexed: "fst ` set (insertIndexed k v obj) = insert k (fst ` set obj)"
  by (simp add: set_insertIndexed)

lemma distinct_insertIndexed:
  "k \<notin> fst ` set obj \<Longrightarrow> distinct (map fst obj) \<Longrightarrow> distinct (map fst (insertIndexed k v obj))"
  by (induction obj) (auto simp: keys_insertIndexed)

lemma map_of_Object_set:
  "map_of (Object_set k v obj) = (if k = ''__proto__'' then map_of obj else (map_of obj)(k \<mapsto> v))"
proof -
  have "map_of (obj @ [(k, v)]) = (map_of obj)(k \<mapsto> v)" if "k \<notin> fst ` set obj"
    using Map_set_absent[OF that, of v] map_of_Map_set[of k v obj] by simp
  then show ?thesis
    by (simp add: Object_set_def Map_has_iff map_of_Map_set map_of_insertIndexed)
qed

lemma keys_Object_set:
  "fst ` set (Object_set k v obj) = (if k = ''__proto__'' then fst ` set obj else insert k (fst ` set obj))"
  by (auto simp: Object_set_def keys_insertIndexed keys_Map_set Map_has_iff)

lemma distinct_Object_set:
  "distinct (map fst obj) \<Longrightarrow> distinct (map fst (Object_set k v obj))"
  by (auto simp: Object_set_def Map_has_iff Map_set_distinct distinct_insertIndexed)

lemma mset_Object_set_new:
  "k \<noteq> ''__proto__'' \<Longrightarrow> k \<notin> fst ` set obj \<Longrightarrow> mset (Object_set k v obj) = add_mset (k, v) (mset obj)"
  by (auto simp: Object_set_def Map_has_iff mset_insertIndexed)

lemma exportAsJSON_writes:
  "exportAsJSON st = foldl (\<lambda>object w. Object_set (fst w) (snd w) object) [] (exportWrites st)"
  by (simp add: exportAsJSON_def exportWrites_def foldl_map documentKey_def case_prod_unfold)

lemma map_of_writes:
  "map_of (foldl (\<lambda>object w. Object_set (fst w) (snd w) object) obj ws) t =
     (if t = ''__proto__'' then map_of obj t
      else case map_of (rev ws) t of None \<Rightarrow> map_of obj t | Some v \<Rightarrow> Some v)"
  by (induction ws rule: rev_induct) (auto simp: map_of_Object_set split: option.splits)

lemma keys_writes:
  "fst ` set (foldl (\<lambda>object w. Object_set (fst w) (snd w) object) obj ws)
     = fst ` set obj \<union> (fst ` set ws - {''__proto__''})"
  by (induction ws rule: rev_induct) (auto simp: keys_Object_set)

lemma distinct_writes:
  "distinct (map fst obj) \<Longrightarrow> distinct (map fst (foldl (\<lambda>object w. Object_set (fst w) (snd w) object) obj ws))"
  by (induction ws rule: rev_induct) (auto simp: distinct_Object_set)

lemma mset_writes:
  "distinct (map fst ws) \<Longrightarrow> ''__proto__'' \<notin> fst ` set ws \<Longrightarrow>
   mset (foldl (\<lambda>object w. Object_set (fst w) (snd w) object) [] ws) = mset ws"
proof (induction ws rule: rev_induct)
  case Nil
  then show ?case by simp
next
  case (snoc w ws)
  have "fst w \<notin> fst ` set (foldl (\<lambda>object w. Object_set (fst w) (snd w) object) [] ws)"
    using snoc.prems by (auto simp: keys_writes)
  moreover have "fst w \<noteq> ''__proto__''" using snoc.prems by auto
  ultimately show ?case using snoc by (simp add: mset_Object_set_new)
qed

section \<open>The exported document\<close>

lemma map_of_rev_last:
  "map_of (rev ws) t = Some v \<Longrightarrow>
   \<exists>l < length ws. ws ! l = (t, v) \<and> (\<forall>l'. l < l' \<and> l' < length ws \<longrightarrow> fst (ws ! l') \<noteq> t)"
proof (induction ws rule: rev_induct)
  case Nil
  then show ?case by simp
next
  case (snoc w ws)
  show ?case
  proof (cases "fst w = t")
    case True
    with snoc.prems have "w = (t, v)" by (cases w) simp
    then show ?thesis by (intro exI[of _ "length ws"]) (auto simp: nth_append)
  next
    case False
    with snoc.prems have "map_of (rev ws) t = Some v" by (cases w) simp
    from snoc.IH[OF this] obtain l where l: "l < length ws" "ws ! l = (t, v)"
      "\<forall>l'. l < l' \<and> l' < length ws \<longrightarrow> fst (ws ! l') \<noteq> t" by blast
    have "\<forall>l'. l < l' \<and> l' < length (ws @ [w]) \<longrightarrow> fst ((ws @ [w]) ! l') \<noteq> t"
      using l(3) False by (auto simp: nth_append)
    with l(1,2) show ?thesis by (intro exI[of _ l]) (simp add: nth_append)
  qed
qed

lemma map_of_rev_last_conv:
  "l < length ws \<Longrightarrow> ws ! l = (t, v) \<Longrightarrow> (\<forall>l'. l < l' \<and> l' < length ws \<longrightarrow> fst (ws ! l') \<noteq> t)
   \<Longrightarrow> map_of (rev ws) t = Some v"
proof (induction ws rule: rev_induct)
  case Nil
  then show ?case by simp
next
  case (snoc w ws)
  show ?case
  proof (cases "l = length ws")
    case True
    with snoc.prems(2) show ?thesis by simp
  next
    case False
    with snoc.prems(1) have l: "l < length ws" by simp
    have "fst ((ws @ [w]) ! length ws) \<noteq> t"
      using snoc.prems(3)[rule_format, of "length ws"] l by simp
    then have w: "fst w \<noteq> t" by simp
    have "\<forall>l'. l < l' \<and> l' < length ws \<longrightarrow> fst (ws ! l') \<noteq> t"
    proof (intro allI impI)
      fix l' assume a: "l < l' \<and> l' < length ws"
      with snoc.prems(3) have "fst ((ws @ [w]) ! l') \<noteq> t" by simp
      with a show "fst (ws ! l') \<noteq> t" by (simp add: nth_append)
    qed
    moreover have "ws ! l = (t, v)" using snoc.prems(2) l by (simp add: nth_append)
    ultimately have "map_of (rev ws) t = Some v" using snoc.IH l by blast
    with w show ?thesis by (cases w) simp
  qed
qed

lemma distinct_keys_filter: "distinct (map fst m) \<Longrightarrow> length (filter (\<lambda>e. fst e = t) m) \<le> 1"
proof (induction m)
  case Nil
  then show ?case by simp
next
  case (Cons e m)
  show ?case
  proof (cases "fst e = t")
    case True
    with Cons.prems have "t \<notin> fst ` set m" by simp
    then have "\<forall>x \<in> set m. fst x \<noteq> t" by (metis imageI)
    then have "filter (\<lambda>e. fst e = t) m = []"
      by (simp add: filter_empty_conv)
    with True show ?thesis by simp
  next
    case False
    with Cons show ?thesis by simp
  qed
qed

lemma exportMap_distinct: "distinct (map fst (exportMap st))"
  by (simp add: exportMap_refines exportMap_spec_def comp_def)

lemma exportMap_entry:
  assumes "(u, im) \<in> set (exportMap st)" and "(k, sd) \<in> set im"
  shows "sd = syntheticDiffOf (groupOf st u k) \<and> groupOf st u k \<noteq> []"
proof -
  from assms(1) have im: "im = map (\<lambda>k. (k, syntheticDiffOf (groupOf st u k)))
      (firstOccurrences (map (keyOf \<circ> fst) (filter (\<lambda>(fileDiff, hunk). uuidOf st hunk = u) (traversal st))))"
    by (auto simp: exportMap_refines exportMap_spec_def)
  with assms(2) have sd: "sd = syntheticDiffOf (groupOf st u k)"
    and "k \<in> set (map (keyOf \<circ> fst) (filter (\<lambda>(fileDiff, hunk). uuidOf st hunk = u) (traversal st)))"
    by auto
  then obtain p where "p \<in> set (traversal st)" "uuidOf st (snd p) = u" "keyOf (fst p) = k"
    by (auto simp: case_prod_unfold)
  then have "p \<in> set (groupOf st u k)" by (auto simp: groupOf_def case_prod_unfold)
  with sd show ?thesis by auto
qed

lemma traversal_hunks: "snd ` set (traversal st) = set (allHunks st)"
  by (auto simp: traversal_def allHunks_def image_iff) 

lemma exportMap_hunk:
  assumes "(u, im) \<in> set (exportMap st)" and "sd \<in> set (Map_values im)" and "h \<in> set (hunks sd)"
  shows "uuidOf st h = u \<and> h \<in> set (allHunks st)"
proof -
  from assms(2) obtain k where "(k, sd) \<in> set im" by (auto simp: Map_values_def)
  from exportMap_entry[OF assms(1) this] have "sd = syntheticDiffOf (groupOf st u k)" by simp
  with assms(3) have "h \<in> snd ` set (groupOf st u k)" by (simp add: syntheticDiffOf_Cons hunks_syntheticDiffOf)
  then show ?thesis
    using traversal_hunks[of st] by (auto simp: groupOf_def)
qed

lemma exportMap_values_nonempty:
  assumes "(u, im) \<in> set (exportMap st)" and "sd \<in> set (Map_values im)"
  shows "hunks sd \<noteq> []"
proof -
  from assms(2) obtain k where "(k, sd) \<in> set im" by (auto simp: Map_values_def)
  from exportMap_entry[OF assms(1) this] show ?thesis by (auto simp: syntheticDiffOf_Cons hunks_syntheticDiffOf)
qed

lemma exportWrites_nth:
  "l < length (exportMap st) \<Longrightarrow>
   exportWrites st ! l = (documentKey st (fst (exportMap st ! l)), Map_values (snd (exportMap st ! l)))"
  by (simp add: exportWrites_def case_prod_unfold)

lemma exportAsJSON_distinct: "distinct (map fst (exportAsJSON st))"
  by (simp add: exportAsJSON_writes distinct_writes)

text \<open>Every entry of the document is the last assignment made under its key.\<close>

lemma exportAsJSON_entry:
  assumes "(t, v) \<in> set (exportAsJSON st)"
  shows "t \<noteq> ''__proto__'' \<and> (\<exists>l < length (exportMap st).
           documentKey st (fst (exportMap st ! l)) = t \<and> v = Map_values (snd (exportMap st ! l))
           \<and> (\<forall>l'. l < l' \<and> l' < length (exportMap st) \<longrightarrow> documentKey st (fst (exportMap st ! l')) \<noteq> t))"
proof -
  from assms have "t \<in> fst ` set (exportAsJSON st)" by force
  then have t: "t \<noteq> ''__proto__''"
    by (auto simp: exportAsJSON_writes keys_writes)
  from assms have "map_of (exportAsJSON st) t = Some v"
    using exportAsJSON_distinct by simp
  with t have "map_of (rev (exportWrites st)) t = Some v"
    by (simp add: exportAsJSON_writes map_of_writes split: option.splits)
  from map_of_rev_last[OF this] obtain l where l: "l < length (exportWrites st)"
    "exportWrites st ! l = (t, v)"
    "\<forall>l'. l < l' \<and> l' < length (exportWrites st) \<longrightarrow> fst (exportWrites st ! l') \<noteq> t" by blast
  have len: "length (exportWrites st) = length (exportMap st)" by (simp add: exportWrites_def)
  have "\<forall>l'. l < l' \<and> l' < length (exportMap st) \<longrightarrow> documentKey st (fst (exportMap st ! l')) \<noteq> t"
    using l(3) by (auto simp: len exportWrites_nth)
  moreover have "documentKey st (fst (exportMap st ! l)) = t \<and> v = Map_values (snd (exportMap st ! l))"
    using l(1,2) by (simp add: len exportWrites_nth)
  ultimately show ?thesis using t l(1) len by auto
qed

lemma exportAsJSON_last:
  assumes "l < length (exportMap st)" and "documentKey st (fst (exportMap st ! l)) = t"
    and "\<forall>l'. l < l' \<and> l' < length (exportMap st) \<longrightarrow> documentKey st (fst (exportMap st ! l')) \<noteq> t"
    and "t \<noteq> ''__proto__''"
  shows "map_of (exportAsJSON st) t = Some (Map_values (snd (exportMap st ! l)))"
proof -
  have len: "length (exportWrites st) = length (exportMap st)" by (simp add: exportWrites_def)
  have "map_of (rev (exportWrites st)) t = Some (Map_values (snd (exportMap st ! l)))"
  proof (rule map_of_rev_last_conv[of l])
    show "l < length (exportWrites st)" using assms(1) len by simp
    show "exportWrites st ! l = (t, Map_values (snd (exportMap st ! l)))"
      using assms(1,2) by (simp add: exportWrites_nth)
    show "\<forall>l'. l < l' \<and> l' < length (exportWrites st) \<longrightarrow> fst (exportWrites st ! l') \<noteq> t"
      using assms(3) by (auto simp: len exportWrites_nth)
  qed
  with assms(4) show ?thesis by (simp add: exportAsJSON_writes map_of_writes)
qed

text \<open>A hunk of the document belongs to a group that was written last under its key.\<close>

lemma documentHunks_exportAsJSON:
  assumes "h \<in> set (documentHunks (exportAsJSON st))"
  shows "h \<in> set (allHunks st) \<and> (\<exists>l < length (exportMap st). fst (exportMap st ! l) = uuidOf st h
           \<and> (\<forall>l'. l < l' \<and> l' < length (exportMap st) \<longrightarrow>
                 documentKey st (fst (exportMap st ! l')) \<noteq> documentKey st (uuidOf st h)))"
proof -
  from assms obtain t v sd where e: "(t, v) \<in> set (exportAsJSON st)" "sd \<in> set v" "h \<in> set (hunks sd)"
    by (auto simp: documentHunks_def)
  from exportAsJSON_entry[OF e(1)] obtain l where l: "l < length (exportMap st)"
    "documentKey st (fst (exportMap st ! l)) = t" "v = Map_values (snd (exportMap st ! l))"
    "\<forall>l'. l < l' \<and> l' < length (exportMap st) \<longrightarrow> documentKey st (fst (exportMap st ! l')) \<noteq> t"
    by blast
  have "(fst (exportMap st ! l), snd (exportMap st ! l)) \<in> set (exportMap st)"
    using l(1) by simp
  from exportMap_hunk[OF this] e(2,3) l(3) have "uuidOf st h = fst (exportMap st ! l)" "h \<in> set (allHunks st)"
    by auto
  with l show ?thesis by auto
qed

section \<open>Evaluation of the samples\<close>

lemma isArrayIndex_nondigit: "\<not> isDigit c \<Longrightarrow> \<not> isArrayIndex (c # s)"
  by (simp add: isArrayIndex_def)

lemmas sample_defs = sampleState_def sampleSameText_def sampleEmptyText_def fileA_def fileB_def
  hunkA1_def hunkA2_def hunkB1_def changeLabel_def actions_defs

lemmas export_defs = exportMap_def exportHunk_def exportAsJSON_def Object_set_def orElse_def
  Map_has_def Map_values_def JSON_stringify_names_def NULL_UUID_def Let_def
  isArrayIndex_nondigit isDigit_def

lemma exportMap_sampleSameText: "exportMap sampleSameText =
  [(''L'', [((Some ''a/A'', Some ''b/A''), fileA\<lparr>hunks := [hunkA1]\<rparr>)]),
   (NULL_UUID, [((Some ''a/A'', Some ''b/A''), fileA\<lparr>hunks := [hunkA2]\<rparr>)]),
   (''Lx'', [((Some ''a/B'', Some ''b/B''), fileB)])]"
  by (simp add: sample_defs export_defs)

lemma exportAsJSON_sampleSameText: "exportAsJSON sampleSameText =
  [(''same'', [fileB]), (''undefined'', [fileA\<lparr>hunks := [hunkA2]\<rparr>])]"
  by (simp add: sample_defs export_defs)

lemma exportMap_sampleEmptyText: "exportMap sampleEmptyText =
  [(''L'', [((Some ''a/A'', Some ''b/A''), fileA\<lparr>hunks := [hunkA1]\<rparr>)]),
   (NULL_UUID, [((Some ''a/A'', Some ''b/A''), fileA\<lparr>hunks := [hunkA2]\<rparr>)]),
   (''Lx'', [((Some ''a/B'', Some ''b/B''), fileB)])]"
  by (simp add: sample_defs export_defs)

lemma exportAsJSON_sampleEmptyText: "exportAsJSON sampleEmptyText =
  [(''undefined'', [fileA\<lparr>hunks := [hunkA2]\<rparr>]), (''style'', [fileB])]"
  by (simp add: sample_defs export_defs)

lemma exportAsJSON_sampleBothEmpty: "exportAsJSON sampleBothEmpty = [(''undefined'', [fileB])]"
  by (simp add: sampleBothEmpty_def sample_defs export_defs)

lemma exportAsJSON_sampleProtoText:
  "exportAsJSON sampleProtoText = [(''undefined'', [fileA\<lparr>hunks := [hunkA2]\<rparr>])]"
  by (simp add: sampleProtoText_def sample_defs export_defs)

lemma exportMap_sampleProtoText: "exportMap sampleProtoText =
  [(''L'', [((Some ''a/A'', Some ''b/A''), fileA\<lparr>hunks := [hunkA1]\<rparr>)]),
   (NULL_UUID, [((Some ''a/A'', Some ''b/A''), fileA\<lparr>hunks := [hunkA2]\<rparr>)]),
   (''Lx'', [((Some ''a/B'', Some ''b/B''), fileB)])]"
  by (simp add: sampleProtoText_def sample_defs export_defs)

lemma exportMap_sampleBothEmpty: "exportMap sampleBothEmpty =
  [(''L'', [((Some ''a/A'', Some ''b/A''), fileA\<lparr>hunks := [hunkA1]\<rparr>)]),
   (NULL_UUID, [((Some ''a/A'', Some ''b/A''), fileA\<lparr>hunks := [hunkA2]\<rparr>)]),
   (''Lx'', [((Some ''a/B'', Some ''b/B''), fileB)])]"
  by (simp add: sampleBothEmpty_def sample_defs export_defs)

lemma exportMap_group_hunks:
  assumes "(u, im) \<in> set (exportMap st)"
  shows "set (concat (map hunks (Map_values im))) = {h \<in> set (allHunks st). uuidOf st h = u}"
proof (intro equalityI subsetI)
  fix h assume "h \<in> set (concat (map hunks (Map_values im)))"
  then obtain sd where "sd \<in> set (Map_values im)" "h \<in> set (hunks sd)" by auto
  from exportMap_hunk[OF assms this] show "h \<in> {h \<in> set (allHunks st). uuidOf st h = u}" by simp
next
  fix h assume "h \<in> {h \<in> set (allHunks st). uuidOf st h = u}"
  then have h: "h \<in> set (allHunks st)" "uuidOf st h = u" by auto
  then obtain fd where fd: "(fd, h) \<in> set (traversal st)"
    using traversal_hunks[of st] by force
  let ?k = "keyOf fd"
  from assms have im: "im = map (\<lambda>k. (k, syntheticDiffOf (groupOf st u k)))
      (firstOccurrences (map (keyOf \<circ> fst) (filter (\<lambda>(fileDiff, hunk). uuidOf st hunk = u) (traversal st))))"
    by (auto simp: exportMap_refines exportMap_spec_def)
  have "?k \<in> set (map (keyOf \<circ> fst) (filter (\<lambda>(fileDiff, hunk). uuidOf st hunk = u) (traversal st)))"
    using fd h(2) by force
  then have "?k \<in> set (firstOccurrences (map (keyOf \<circ> fst)
      (filter (\<lambda>(fileDiff, hunk). uuidOf st hunk = u) (traversal st))))"
    by (simp only: set_firstOccurrences)
  then have "(?k, syntheticDiffOf (groupOf st u ?k)) \<in> set im"
    unfolding im set_map by (rule imageI)
  then have "syntheticDiffOf (groupOf st u ?k) \<in> set (Map_values im)"
    by (force simp: Map_values_def)
  moreover have "h \<in> set (hunks (syntheticDiffOf (groupOf st u ?k)))"
    using fd h(2) by (force simp: syntheticDiffOf_Cons hunks_syntheticDiffOf groupOf_def)
  ultimately show "h \<in> set (concat (map hunks (Map_values im)))" by auto
qed

section \<open>Labels with the same text\<close>

text \<open>
  C9, as the source has it. The key of a group is the text of its label only when the
  text is neither empty nor \<^verbatim>\<open>__proto__\<close>. The groups of \<^verbatim>\<open>map\<close> are assigned to the
  object in the order of \<^verbatim>\<open>map\<close>. Let the
  \<open>i\<close>-th and the \<open>j\<close>-th group, \<open>i < j\<close>, belong to labels with the same text. Then
  the two label ids differ and are assigned under the same key (the text, or
  \<^verbatim>\<open>undefined\<close> for the empty text); no hunk and no synthetic file diff of the group
  written earlier is anywhere in the exported document; the document has at most one
  entry with that key; and if no later group is written under the key, whatever the
  document holds under it is the list of synthetic file diffs of the \<open>j\<close>-th group
  alone, which it does hold unless the key is \<^verbatim>\<open>__proto__\<close>.
\<close>

theorem C9_last_write_wins:
  assumes "i < j" and "j < length (exportMap st)"
    and "Map_get (labelMap st) (fst (exportMap st ! i)) = Some text"
    and "Map_get (labelMap st) (fst (exportMap st ! j)) = Some text"
  shows "fst (exportMap st ! i) \<noteq> fst (exportMap st ! j)
    \<and> documentKey st (fst (exportMap st ! i)) = documentKey st (fst (exportMap st ! j))
    \<and> documentKey st (fst (exportMap st ! j)) = (if text = [] then ''undefined'' else text)
    \<and> (\<forall>h \<in> set (allHunks st). uuidOf st h = fst (exportMap st ! i) \<longrightarrow>
          h \<notin> set (documentHunks (exportAsJSON st)))
    \<and> (\<forall>sd \<in> set (Map_values (snd (exportMap st ! i))). sd \<notin> set (concat (map snd (exportAsJSON st))))
    \<and> length (filter (\<lambda>e. fst e = documentKey st (fst (exportMap st ! j))) (exportAsJSON st)) \<le> 1
    \<and> ((\<forall>l. j < l \<and> l < length (exportMap st) \<longrightarrow>
            documentKey st (fst (exportMap st ! l)) \<noteq> documentKey st (fst (exportMap st ! j)))
        \<longrightarrow> (\<forall>v. (documentKey st (fst (exportMap st ! j)), v) \<in> set (exportAsJSON st) \<longrightarrow>
                  v = Map_values (snd (exportMap st ! j)))
          \<and> (documentKey st (fst (exportMap st ! j)) \<noteq> ''__proto__'' \<longrightarrow>
                map_of (exportAsJSON st) (documentKey st (fst (exportMap st ! j)))
                  = Some (Map_values (snd (exportMap st ! j)))))"
proof -
  let ?t = "documentKey st (fst (exportMap st ! j))"
  let ?M = "exportMap st"
  have kj: "?t = (if text = [] then ''undefined'' else text)"
    using assms(4) by (simp add: documentKey_def orElse_def)
  have ki: "documentKey st (fst (?M ! i)) = ?t"
    using assms(3,4) by (simp add: documentKey_def)
  have dist: "distinct (map fst ?M)" by (rule exportMap_distinct)
  have idx: "fst (?M ! a) = fst (?M ! b) \<Longrightarrow> a = b" if "a < length ?M" "b < length ?M" for a b
    using dist that by (metis distinct_conv_nth length_map nth_map)
  have 1: "fst (?M ! i) \<noteq> fst (?M ! j)"
    using idx[of i j] assms(1,2) by auto
  have 2: "h \<notin> set (documentHunks (exportAsJSON st))" if "uuidOf st h = fst (?M ! i)" for h
  proof
    assume "h \<in> set (documentHunks (exportAsJSON st))"
    from documentHunks_exportAsJSON[OF this] obtain l where l: "l < length ?M"
      "fst (?M ! l) = uuidOf st h"
      "\<forall>l'. l < l' \<and> l' < length ?M \<longrightarrow> documentKey st (fst (?M ! l')) \<noteq> documentKey st (uuidOf st h)"
      by blast
    from l(1,2) that have "l = i" using idx[of l i] assms(1,2) by simp
    with l(3) that assms(1,2) ki show False by auto
  qed
  have 3: "sd \<notin> set (concat (map snd (exportAsJSON st)))" if "sd \<in> set (Map_values (snd (?M ! i)))" for sd
  proof
    assume in_doc: "sd \<in> set (concat (map snd (exportAsJSON st)))"
    have mem: "(fst (?M ! i), snd (?M ! i)) \<in> set ?M" using assms(1,2) by simp
    from exportMap_values_nonempty[OF mem that] obtain h where h: "h \<in> set (hunks sd)"
      by (cases "hunks sd") auto
    from exportMap_hunk[OF mem that h] have "uuidOf st h = fst (?M ! i)" by simp
    from 2[OF this] have "h \<notin> set (documentHunks (exportAsJSON st))" .
    moreover from in_doc h have "h \<in> set (documentHunks (exportAsJSON st))"
      by (force simp: documentHunks_def)
    ultimately show False by simp
  qed
  have 4: "length (filter (\<lambda>e. fst e = ?t) (exportAsJSON st)) \<le> 1"
    using exportAsJSON_distinct[of st] by (rule distinct_keys_filter)
  have 5: "(\<forall>v. (?t, v) \<in> set (exportAsJSON st) \<longrightarrow> v = Map_values (snd (?M ! j)))
          \<and> (?t \<noteq> ''__proto__'' \<longrightarrow> map_of (exportAsJSON st) ?t = Some (Map_values (snd (?M ! j))))"
    if last: "\<forall>l. j < l \<and> l < length ?M \<longrightarrow> documentKey st (fst (?M ! l)) \<noteq> ?t"
  proof (intro conjI allI impI)
    fix v assume "(?t, v) \<in> set (exportAsJSON st)"
    from exportAsJSON_entry[OF this] obtain l where l: "l < length ?M"
      "documentKey st (fst (?M ! l)) = ?t" "v = Map_values (snd (?M ! l))"
      "\<forall>l'. l < l' \<and> l' < length ?M \<longrightarrow> documentKey st (fst (?M ! l')) \<noteq> ?t" by blast
    have "l = j"
    proof (rule ccontr)
      assume "l \<noteq> j"
      then consider "l < j" | "j < l" by linarith
      then show False
        using l(1,2,4) last assms(2) by cases auto
    qed
    with l(3) show "v = Map_values (snd (?M ! j))" by simp
  next
    assume "?t \<noteq> ''__proto__''"
    then show "map_of (exportAsJSON st) ?t = Some (Map_values (snd (?M ! j)))"
      using exportAsJSON_last[OF assms(2) refl] last by simp
  qed
  from 1 ki kj 2 3 4 5 show ?thesis by blast
qed

text \<open>The theorem at the sample whose two labels were both renamed to \<open>same\<close>.\<close>

theorem C9_last_write_wins_witness:
  "(0::nat) < 2 \<and> 2 < length (exportMap sampleSameText)
   \<and> Map_get (labelMap sampleSameText) (fst (exportMap sampleSameText ! 0)) = Some ''same''
   \<and> Map_get (labelMap sampleSameText) (fst (exportMap sampleSameText ! 2)) = Some ''same''
   \<and> hunkA1 \<in> set (allHunks sampleSameText)
   \<and> uuidOf sampleSameText hunkA1 = fst (exportMap sampleSameText ! 0)
   \<and> hunkA1 \<notin> set (documentHunks (exportAsJSON sampleSameText))
   \<and> map_of (exportAsJSON sampleSameText) ''same'' = Some (Map_values (snd (exportMap sampleSameText ! 2)))
   \<and> Map_values (snd (exportMap sampleSameText ! 2)) = [fileB]"
proof -
  let ?st = sampleSameText
  have 1: "(0::nat) < 2" by simp
  have 2: "2 < length (exportMap ?st)" by (simp add: exportMap_sampleSameText)
  have 3: "Map_get (labelMap ?st) (fst (exportMap ?st ! 0)) = Some ''same''"
    by (simp add: exportMap_sampleSameText) (simp add: sample_defs)
  have 4: "Map_get (labelMap ?st) (fst (exportMap ?st ! 2)) = Some ''same''"
    by (simp add: exportMap_sampleSameText) (simp add: sample_defs)
  have 5: "hunkA1 \<in> set (allHunks ?st)"
    by (simp add: allHunks_def sample_defs)
  have 6: "uuidOf ?st hunkA1 = fst (exportMap ?st ! 0)"
    by (simp add: exportMap_sampleSameText) (simp add: uuidOf_def orElse_def sample_defs)
  have 7: "\<forall>l. 2 < l \<and> l < length (exportMap ?st) \<longrightarrow>
      documentKey ?st (fst (exportMap ?st ! l)) \<noteq> documentKey ?st (fst (exportMap ?st ! 2))"
    by (auto simp: exportMap_sampleSameText)
  have 8: "documentKey ?st (fst (exportMap ?st ! 2)) = ''same''"
    by (simp add: exportMap_sampleSameText) (simp add: documentKey_def orElse_def sample_defs)
  have 9: "Map_values (snd (exportMap ?st ! 2)) = [fileB]"
    by (simp add: exportMap_sampleSameText Map_values_def)
  from C9_last_write_wins[OF 1 2 3 4] 5 6 7 8
  have "hunkA1 \<notin> set (documentHunks (exportAsJSON ?st))
    \<and> map_of (exportAsJSON ?st) ''same'' = Some (Map_values (snd (exportMap ?st ! 2)))"
    by auto
  with 1 2 3 4 5 6 9 show ?thesis by blast
qed

text \<open>
  The claim as it is written fails: the shared text is not always a key of the document.
  When both labels of the sample have the empty text, the three groups are written
  under \<^verbatim>\<open>undefined\<close> and the document has no key that is the empty text. When both have
  the text \<^verbatim>\<open>__proto__\<close>, neither assignment creates a property, and the document holds
  the group of the unlabelled hunk alone.
\<close>

theorem C9_shared_text_is_no_key:
  "Map_get (labelMap sampleBothEmpty) ''L'' = Some []
   \<and> Map_get (labelMap sampleBothEmpty) ''Lx'' = Some []
   \<and> map fst (exportMap sampleBothEmpty) = [''L'', NULL_UUID, ''Lx'']
   \<and> exportAsJSON sampleBothEmpty = [(''undefined'', [fileB])]
   \<and> map_of (exportAsJSON sampleBothEmpty) [] = None
   \<and> Map_get (labelMap sampleProtoText) ''L'' = Some ''__proto__''
   \<and> Map_get (labelMap sampleProtoText) ''Lx'' = Some ''__proto__''
   \<and> map fst (exportMap sampleProtoText) = [''L'', NULL_UUID, ''Lx'']
   \<and> exportAsJSON sampleProtoText = [(''undefined'', [fileA\<lparr>hunks := [hunkA2]\<rparr>])]
   \<and> map_of (exportAsJSON sampleProtoText) ''__proto__'' = None"
  by (simp add: exportAsJSON_sampleBothEmpty exportAsJSON_sampleProtoText
      exportMap_sampleBothEmpty exportMap_sampleProtoText)
    (simp add: sampleBothEmpty_def sampleProtoText_def sample_defs)

section \<open>A label with empty text\<close>

text \<open>
  C10, as the source has it. \<^verbatim>\<open>addLabel\<close> does nothing when the text is empty, and
  \<^verbatim>\<open>changeLabel\<close> stores an empty text. For a label \<open>L\<close> whose text is empty and whose
  group is the \<open>j\<close>-th of \<^verbatim>\<open>map\<close>: the key of \<open>L\<close> is \<^verbatim>\<open>undefined\<close>, which is also the key
  of every id without label, the nil UUID of the uncategorized hunks among them; the
  hunks of the group are the hunks of the diff associated with \<open>L\<close>, and the group is
  assigned under \<^verbatim>\<open>undefined\<close>; the exported document holds it under \<^verbatim>\<open>undefined\<close>
  provided no group written later has that key (a later one replaces it).
\<close>

theorem C10_empty_text_key:
  assumes "Map_get (labelMap st) L = Some []" and "j < length (exportMap st)"
    and "fst (exportMap st ! j) = L"
  shows "addLabel uuidv4 (st\<lparr>newLabel := []\<rparr>) = st\<lparr>newLabel := []\<rparr>
    \<and> Map_get (labelMap (changeLabel L' [] st)) L' = Some []
    \<and> documentKey st L = ''undefined''
    \<and> (\<forall>u. Map_get (labelMap st) u = None \<longrightarrow> documentKey st u = ''undefined'')
    \<and> set (concat (map hunks (Map_values (snd (exportMap st ! j)))))
        = {h \<in> set (allHunks st). uuidOf st h = L}
    \<and> exportWrites st ! j = (''undefined'', Map_values (snd (exportMap st ! j)))
    \<and> ((\<forall>l. j < l \<and> l < length (exportMap st) \<longrightarrow>
            documentKey st (fst (exportMap st ! l)) \<noteq> ''undefined'')
        \<longrightarrow> map_of (exportAsJSON st) ''undefined'' = Some (Map_values (snd (exportMap st ! j))))"
proof -
  have key: "documentKey st L = ''undefined''"
    using assms(1) by (simp add: documentKey_def orElse_def)
  have mem: "(L, snd (exportMap st ! j)) \<in> set (exportMap st)"
    using assms(2,3) by (metis nth_mem prod.collapse)
  have "addLabel uuidv4 (st\<lparr>newLabel := []\<rparr>) = st\<lparr>newLabel := []\<rparr>"
    by (simp add: addLabel_def)
  moreover have "Map_get (labelMap (changeLabel L' [] st)) L' = Some []"
    by (simp add: changeLabel_def actions_defs Map_get_set)
  moreover have "\<forall>u. Map_get (labelMap st) u = None \<longrightarrow> documentKey st u = ''undefined''"
    by (simp add: documentKey_def orElse_def)
  moreover have "exportWrites st ! j = (''undefined'', Map_values (snd (exportMap st ! j)))"
    using assms(2,3) key by (simp add: exportWrites_nth)
  moreover have "map_of (exportAsJSON st) ''undefined'' = Some (Map_values (snd (exportMap st ! j)))"
    if "\<forall>l. j < l \<and> l < length (exportMap st) \<longrightarrow> documentKey st (fst (exportMap st ! l)) \<noteq> ''undefined''"
    using exportAsJSON_last[OF assms(2), of "''undefined''"] that key assms(3) by simp
  ultimately show ?thesis
    using key exportMap_group_hunks[OF mem] by blast
qed

text \<open>The theorem at the sample with the second label renamed to the empty text.\<close>

theorem C10_empty_text_key_witness:
  "Map_get (labelMap (changeLabel ''Lx'' [] sampleState)) ''Lx'' = Some []
   \<and> 2 < length (exportMap (changeLabel ''Lx'' [] sampleState))
   \<and> fst (exportMap (changeLabel ''Lx'' [] sampleState) ! 2) = ''Lx''
   \<and> map_of (exportAsJSON (changeLabel ''Lx'' [] sampleState)) ''undefined''
        = Some (Map_values (snd (exportMap (changeLabel ''Lx'' [] sampleState) ! 2)))
   \<and> Map_values (snd (exportMap (changeLabel ''Lx'' [] sampleState) ! 2)) = [fileB]"
proof -
  let ?st = "changeLabel ''Lx'' [] sampleState"
  have M: "exportMap ?st =
    [(''L'', [((Some ''a/A'', Some ''b/A''), fileA\<lparr>hunks := [hunkA1]\<rparr>)]),
     (NULL_UUID, [((Some ''a/A'', Some ''b/A''), fileA\<lparr>hunks := [hunkA2]\<rparr>)]),
     (''Lx'', [((Some ''a/B'', Some ''b/B''), fileB)])]"
    by (simp add: sample_defs export_defs)
  have 1: "Map_get (labelMap ?st) ''Lx'' = Some []" by (simp add: sample_defs)
  have 2: "2 < length (exportMap ?st)" by (simp add: M)
  have 3: "fst (exportMap ?st ! 2) = ''Lx''" by (simp add: M)
  have 4: "\<forall>l. 2 < l \<and> l < length (exportMap ?st) \<longrightarrow>
      documentKey ?st (fst (exportMap ?st ! l)) \<noteq> ''undefined''"
    by (auto simp: M)
  have 5: "Map_values (snd (exportMap ?st ! 2)) = [fileB]" by (simp add: M Map_values_def)
  from C10_empty_text_key[OF 1 2 3] 4
  have "map_of (exportAsJSON ?st) ''undefined'' = Some (Map_values (snd (exportMap ?st ! 2)))"
    by blast
  with 1 2 3 5 show ?thesis by blast
qed

text \<open>
  The claim as it is written fails: in the sample with the first label renamed to the
  empty text, hunk A1 is associated with that label, the uncategorized hunk A2 comes
  later in the traversal, and the document holds hunk A2 alone under \<^verbatim>\<open>undefined\<close>.
\<close>

theorem C10_empty_text_hunks_overwritten:
  "Map_get (labelMap sampleEmptyText) ''L'' = Some []
   \<and> Map_get (hunkMap sampleEmptyText) hunkA1 = Some ''L''
   \<and> hunkA1 \<in> set (allHunks sampleEmptyText)
   \<and> hunkA1 \<notin> set (documentHunks (exportAsJSON sampleEmptyText))
   \<and> map_of (exportAsJSON sampleEmptyText) ''undefined'' = Some [fileA\<lparr>hunks := [hunkA2]\<rparr>]"
  by (simp add: exportAsJSON_sampleEmptyText documentHunks_def) (simp add: sample_defs allHunks_def)

section \<open>Shape and order of the serializer output\<close>

lemma Map_get_map_keys: "Map_get (map (\<lambda>k. (k, f k)) ks) k = (if k \<in> set ks then Some (f k) else None)"
  by (induction ks) auto

lemma exportMap_lookup:
  assumes "(fd, h) \<in> set (traversal st)"
  shows "\<exists>im sd. Map_get (exportMap st) (uuidOf st h) = Some im \<and> Map_get im (keyOf fd) = Some sd
    \<and> hunks sd = map snd (groupOf st (uuidOf st h) (keyOf fd))
    \<and> oldFileName sd = oldFileName fd \<and> newFileName sd = newFileName fd"
proof -
  let ?u = "uuidOf st h" and ?k = "keyOf fd"
  let ?ks = "firstOccurrences (map (keyOf \<circ> fst) (filter (\<lambda>(fileDiff, hunk). uuidOf st hunk = ?u) (traversal st)))"
  let ?im = "map (\<lambda>k. (k, syntheticDiffOf (groupOf st ?u k))) ?ks"
  let ?g = "groupOf st ?u ?k"
  have u: "?u \<in> set (firstOccurrences (map (uuidOf st \<circ> snd) (traversal st)))"
    using assms by force
  have 1: "Map_get (exportMap st) ?u = Some ?im"
    unfolding exportMap_refines exportMap_spec_def Map_get_map_keys using u by simp
  have k: "?k \<in> set ?ks" using assms by force
  have 2: "Map_get ?im ?k = Some (syntheticDiffOf ?g)"
    unfolding Map_get_map_keys using k by simp
  have mem: "(fd, h) \<in> set ?g" using assms by (simp add: groupOf_def)
  then obtain p ps where g: "?g = p # ps" by (cases ?g) auto
  then have "p \<in> set ?g" by simp
  then have "keyOf (fst p) = keyOf fd" by (auto simp: groupOf_def)
  then have "oldFileName (fst p) = oldFileName fd \<and> newFileName (fst p) = newFileName fd"
    by (simp add: keyOf_def JSON_stringify_names_def)
  then have 3: "oldFileName (syntheticDiffOf ?g) = oldFileName fd \<and> newFileName (syntheticDiffOf ?g) = newFileName fd"
    by (simp add: syntheticDiffOf_Cons hunks_syntheticDiffOf g)
  have 4: "hunks (syntheticDiffOf ?g) = map snd ?g" by (simp add: syntheticDiffOf_Cons hunks_syntheticDiffOf)
  from 1 2 3 4 show ?thesis by blast
qed

lemma exportMap_sampleState: "exportMap sampleState =
  [(''L'', [((Some ''a/A'', Some ''b/A''), fileA\<lparr>hunks := [hunkA1]\<rparr>)]),
   (NULL_UUID, [((Some ''a/A'', Some ''b/A''), fileA\<lparr>hunks := [hunkA2]\<rparr>)]),
   (''Lx'', [((Some ''a/B'', Some ''b/B''), fileB)])]"
  by (simp add: sample_defs export_defs)

lemma exportAsJSON_sampleState: "exportAsJSON sampleState =
  [(''bugfix'', [fileA\<lparr>hunks := [hunkA1]\<rparr>]), (''undefined'', [fileA\<lparr>hunks := [hunkA2]\<rparr>]),
   (''style'', [fileB])]"
  by (simp add: sample_defs export_defs)

text \<open>
  C5, as the source has it. For every state \<^verbatim>\<open>exportAsJSON\<close> groups the hunks by the
  associated label id (the nil UUID for a hunk without association) and the pair of
  file names: the map it builds is the one the specification describes, with one
  synthetic file diff per group, carrying the file names of the group and its hunks in
  the order of the traversal. The synthetic file diffs of a label id are assigned under
  the current text of the label, and under the literal \<^verbatim>\<open>undefined\<close> when the id has no
  label or its label has the empty text. When the keys of the label ids are pairwise
  different and none is \<^verbatim>\<open>__proto__\<close>, the document consists of exactly one entry per
  label id, holding the synthetic file diffs of that id.
\<close>

theorem C5_serializer_grouping:
  "exportMap st = exportMap_spec st
   \<and> (\<forall>(fileDiff, hunk) \<in> set (traversal st).
        \<exists>innerMap syntheticDiff.
          Map_get (exportMap st) (uuidOf st hunk) = Some innerMap
          \<and> Map_get innerMap (keyOf fileDiff) = Some syntheticDiff
          \<and> hunks syntheticDiff = map snd (groupOf st (uuidOf st hunk) (keyOf fileDiff))
          \<and> oldFileName syntheticDiff = oldFileName fileDiff
          \<and> newFileName syntheticDiff = newFileName fileDiff)
   \<and> (\<forall>hunk. Map_get (hunkMap st) hunk = None \<longrightarrow> uuidOf st hunk = NULL_UUID)
   \<and> (\<forall>u. documentKey st u =
          (case Map_get (labelMap st) u of
             None \<Rightarrow> ''undefined''
           | Some text \<Rightarrow> if text = [] then ''undefined'' else text))
   \<and> exportAsJSON st = foldl (\<lambda>object w. Object_set (fst w) (snd w) object) [] (exportWrites st)
   \<and> (distinct (map fst (exportWrites st)) \<and> ''__proto__'' \<notin> fst ` set (exportWrites st) \<longrightarrow>
        mset (exportAsJSON st)
          = mset (map (\<lambda>(u, innerMap). (documentKey st u, map snd innerMap)) (exportMap_spec st)))"
proof -
  have "\<forall>(fileDiff, hunk) \<in> set (traversal st).
        \<exists>innerMap syntheticDiff.
          Map_get (exportMap st) (uuidOf st hunk) = Some innerMap
          \<and> Map_get innerMap (keyOf fileDiff) = Some syntheticDiff
          \<and> hunks syntheticDiff = map snd (groupOf st (uuidOf st hunk) (keyOf fileDiff))
          \<and> oldFileName syntheticDiff = oldFileName fileDiff
          \<and> newFileName syntheticDiff = newFileName fileDiff"
    using exportMap_lookup[of _ _ st] by blast
  moreover have "\<forall>hunk. Map_get (hunkMap st) hunk = None \<longrightarrow> uuidOf st hunk = NULL_UUID"
    by (simp add: uuidOf_def orElse_def)
  moreover have "\<forall>u. documentKey st u =
          (case Map_get (labelMap st) u of
             None \<Rightarrow> ''undefined''
           | Some text \<Rightarrow> if text = [] then ''undefined'' else text)"
    by (simp add: documentKey_def orElse_def)
  moreover have "mset (exportAsJSON st)
          = mset (map (\<lambda>(u, innerMap). (documentKey st u, map snd innerMap)) (exportMap_spec st))"
    if "distinct (map fst (exportWrites st)) \<and> ''__proto__'' \<notin> fst ` set (exportWrites st)"
  proof -
    have "mset (exportAsJSON st) = mset (exportWrites st)"
      using that by (simp add: exportAsJSON_writes mset_writes)
    then show ?thesis
      by (simp add: exportWrites_def exportMap_refines Map_values_def)
  qed
  ultimately show ?thesis
    using exportMap_refines[of st] exportAsJSON_writes[of st] by blast
qed

text \<open>The theorem at the sample, whose keys are \<open>bugfix\<close>, \<open>undefined\<close> and \<open>style\<close>.\<close>

theorem C5_serializer_grouping_witness:
  "(fileA, hunkA2) \<in> set (traversal sampleState)
   \<and> Map_get (hunkMap sampleState) hunkA2 = None
   \<and> distinct (map fst (exportWrites sampleState)) \<and> ''__proto__'' \<notin> fst ` set (exportWrites sampleState)
   \<and> exportMap sampleState = exportMap_spec sampleState
   \<and> uuidOf sampleState hunkA2 = NULL_UUID
   \<and> (\<exists>innerMap syntheticDiff.
          Map_get (exportMap sampleState) (uuidOf sampleState hunkA2) = Some innerMap
          \<and> Map_get innerMap (keyOf fileA) = Some syntheticDiff
          \<and> hunks syntheticDiff = map snd (groupOf sampleState (uuidOf sampleState hunkA2) (keyOf fileA)))
   \<and> mset (exportAsJSON sampleState)
        = mset (map (\<lambda>(u, innerMap). (documentKey sampleState u, map snd innerMap)) (exportMap_spec sampleState))
   \<and> exportAsJSON sampleState =
        [(''bugfix'', [fileA\<lparr>hunks := [hunkA1]\<rparr>]), (''undefined'', [fileA\<lparr>hunks := [hunkA2]\<rparr>]),
         (''style'', [fileB])]"
proof -
  let ?st = sampleState
  have 1: "(fileA, hunkA2) \<in> set (traversal ?st)"
    by (simp add: traversal_def sampleState_def fileA_def)
  have 2: "Map_get (hunkMap ?st) hunkA2 = None"
    by (simp add: sample_defs)
  have W: "exportWrites ?st =
    [(''bugfix'', [fileA\<lparr>hunks := [hunkA1]\<rparr>]), (''undefined'', [fileA\<lparr>hunks := [hunkA2]\<rparr>]),
     (''style'', [fileB])]"
    by (simp add: exportWrites_def exportMap_sampleState Map_values_def documentKey_def orElse_def)
      (simp add: sample_defs NULL_UUID_def)
  have 3: "distinct (map fst (exportWrites ?st)) \<and> ''__proto__'' \<notin> fst ` set (exportWrites ?st)"
    by (simp add: W)
  from C5_serializer_grouping[of ?st] have a: "exportMap ?st = exportMap_spec ?st" by blast
  from C5_serializer_grouping[of ?st] 2 have b: "uuidOf ?st hunkA2 = NULL_UUID" by blast
  from C5_serializer_grouping[of ?st] 1 have c: "\<exists>innerMap syntheticDiff.
          Map_get (exportMap ?st) (uuidOf ?st hunkA2) = Some innerMap
          \<and> Map_get innerMap (keyOf fileA) = Some syntheticDiff
          \<and> hunks syntheticDiff = map snd (groupOf ?st (uuidOf ?st hunkA2) (keyOf fileA))"
    by fast
  from C5_serializer_grouping[of ?st] 3 have d: "mset (exportAsJSON ?st)
        = mset (map (\<lambda>(u, innerMap). (documentKey ?st u, map snd innerMap)) (exportMap_spec ?st))"
    by blast
  from 1 2 3 a b c d exportAsJSON_sampleState show ?thesis by blast
qed

text \<open>
  The claim as it is written fails: in the sample with both labels renamed to the same
  text there are three groups, the document holds two synthetic file diffs, and hunk
  A1, whose label has the text \<open>same\<close>, is not in the document.
\<close>

theorem C5_groups_lost_for_equal_texts:
  "length (concat (map (\<lambda>(u, innerMap). Map_values innerMap) (exportMap sampleSameText))) = 3
   \<and> length (concat (map snd (exportAsJSON sampleSameText))) = 2
   \<and> uuidOf sampleSameText hunkA1 = ''L''
   \<and> documentKey sampleSameText ''L'' = ''same''
   \<and> hunkA1 \<notin> set (documentHunks (exportAsJSON sampleSameText))"
  by (simp add: exportMap_sampleSameText exportAsJSON_sampleSameText Map_values_def documentHunks_def)
    (simp add: sample_defs uuidOf_def documentKey_def orElse_def)

section \<open>The round trip through the document\<close>

subsection \<open>What the exported document holds\<close>

lemma mset_concat_map_cong:
  "mset xs = mset ys \<Longrightarrow> mset (concat (map f xs)) = mset (concat (map f ys))"
proof -
  assume a: "mset xs = mset ys"
  have "mset (concat (map f zs)) = sum_mset (image_mset (\<lambda>z. mset (f z)) (mset zs))" for zs
    by (induction zs) auto
  with a show ?thesis by simp
qed

lemma partition_by_key:
  "distinct ks \<Longrightarrow> f ` set xs \<subseteq> set ks \<Longrightarrow>
   mset (concat (map (\<lambda>k. filter (\<lambda>x. f x = k) xs) ks)) = mset xs"
proof (induction ks arbitrary: xs)
  case Nil
  then show ?case by simp
next
  case (Cons k ks)
  let ?rest = "filter (\<lambda>x. f x \<noteq> k) xs"
  have same: "filter (\<lambda>x. f x = k') xs = filter (\<lambda>x. f x = k') ?rest" if "k' \<in> set ks" for k'
  proof -
    from that Cons.prems(1) have "k' \<noteq> k" by auto
    then show ?thesis by (auto intro: filter_cong)
  qed
  have "f ` set ?rest \<subseteq> set ks" using Cons.prems(2) by auto
  with Cons.IH[of ?rest] Cons.prems(1)
  have "mset (concat (map (\<lambda>k'. filter (\<lambda>x. f x = k') ?rest) ks)) = mset ?rest" by simp
  moreover have "map (\<lambda>k'. filter (\<lambda>x. f x = k') xs) ks = map (\<lambda>k'. filter (\<lambda>x. f x = k') ?rest) ks"
    by (rule map_cong) (simp_all add: same)
  ultimately have "mset (concat (map (\<lambda>k'. filter (\<lambda>x. f x = k') xs) ks)) = mset ?rest"
    by (simp only:)
  moreover have "mset (filter (\<lambda>x. f x = k) xs) + mset ?rest = mset xs"
    by (induction xs) auto
  ultimately show ?case by (simp del: mset_filter)
qed

text \<open>The groups of the specification, concatenated, are a rearrangement of the traversal.\<close>

lemma groups_partition:
  "mset (concat (map (\<lambda>u. concat (map (\<lambda>k. groupOf st u k)
       (firstOccurrences (map (keyOf \<circ> fst)
          (filter (\<lambda>(fileDiff, hunk). uuidOf st hunk = u) (traversal st))))))
     (firstOccurrences (map (uuidOf st \<circ> snd) (traversal st)))))
   = mset (traversal st)"
proof -
  let ?grp = "\<lambda>u. filter (\<lambda>p. uuidOf st (snd p) = u) (traversal st)"
  let ?ks = "\<lambda>u. firstOccurrences (map (keyOf \<circ> fst) (filter (\<lambda>(fileDiff, hunk). uuidOf st hunk = u) (traversal st)))"
  let ?us = "firstOccurrences (map (uuidOf st \<circ> snd) (traversal st))"
  have g: "groupOf st u k = filter (\<lambda>p. keyOf (fst p) = k) (?grp u)" for u k
    by (auto simp: groupOf_def case_prod_unfold intro: filter_cong)
  have inner: "mset (concat (map (\<lambda>k. groupOf st u k) (?ks u))) = mset (?grp u)" for u
    unfolding g by (rule partition_by_key) (auto simp: case_prod_unfold)
  have "mset (concat (map (\<lambda>u. concat (map (\<lambda>k. groupOf st u k) (?ks u))) ?us))
      = sum_list (map (\<lambda>u. mset (concat (map (\<lambda>k. groupOf st u k) (?ks u)))) ?us)"
    by (simp add: mset_concat comp_def)
  also have "\<dots> = sum_list (map (\<lambda>u. mset (?grp u)) ?us)"
    by (simp only: inner)
  also have "\<dots> = mset (concat (map ?grp ?us))"
    by (simp add: mset_concat comp_def)
  also have "\<dots> = mset (traversal st)"
    by (rule partition_by_key) auto
  finally show ?thesis .
qed

lemma documentContents_exportWrites:
  "documentContents (exportWrites st) =
     map (\<lambda>(fileDiff, hunk). (keyOf fileDiff, content hunk, documentKey st (uuidOf st hunk)))
       (concat (map (\<lambda>u. concat (map (\<lambda>k. groupOf st u k)
          (firstOccurrences (map (keyOf \<circ> fst)
             (filter (\<lambda>(fileDiff, hunk). uuidOf st hunk = u) (traversal st))))))
        (firstOccurrences (map (uuidOf st \<circ> snd) (traversal st)))))"
proof -
  let ?T = "\<lambda>(fileDiff, hunk). (keyOf fileDiff, content hunk, documentKey st (uuidOf st hunk))"
  let ?ks = "\<lambda>u. firstOccurrences (map (keyOf \<circ> fst) (filter (\<lambda>(fileDiff, hunk). uuidOf st hunk = u) (traversal st)))"
  let ?us = "firstOccurrences (map (uuidOf st \<circ> snd) (traversal st))"
  have grp: "map (\<lambda>h. (keyOf (syntheticDiffOf (groupOf st u k)), content h, documentKey st u))
        (hunks (syntheticDiffOf (groupOf st u k))) = map ?T (groupOf st u k)" for u k
  proof (cases "groupOf st u k")
    case Nil
    then show ?thesis by (simp add: syntheticDiffOf_Cons hunks_syntheticDiffOf)
  next
    case (Cons p ps)
    then have "p \<in> set (groupOf st u k)" by simp
    then have "keyOf (fst p) = k" by (auto simp: groupOf_def)
    then have key: "keyOf (syntheticDiffOf (groupOf st u k)) = k"
      by (simp add: syntheticDiffOf_Cons hunks_syntheticDiffOf Cons keyOf_def)
    have "\<forall>q \<in> set (groupOf st u k). keyOf (fst q) = k \<and> uuidOf st (snd q) = u"
      by (auto simp: groupOf_def)
    moreover have "hunks (syntheticDiffOf (groupOf st u k)) = map snd (groupOf st u k)"
      by (simp add: syntheticDiffOf_Cons hunks_syntheticDiffOf)
    ultimately show ?thesis
      unfolding key by (auto simp: case_prod_unfold)
  qed
  have "documentContents (exportWrites st)
      = concat (map (\<lambda>u. concat (map (\<lambda>k.
          map (\<lambda>h. (keyOf (syntheticDiffOf (groupOf st u k)), content h, documentKey st u))
            (hunks (syntheticDiffOf (groupOf st u k)))) (?ks u))) ?us)"
    by (simp add: documentContents_def exportWrites_def exportMap_refines exportMap_spec_def
        Map_values_def comp_def)
  also have "\<dots> = concat (map (\<lambda>u. concat (map (\<lambda>k. map ?T (groupOf st u k)) (?ks u))) ?us)"
    by (simp only: grp)
  also have "\<dots> = map ?T (concat (map (\<lambda>u. concat (map (\<lambda>k. groupOf st u k) (?ks u))) ?us))"
    by (simp add: map_concat comp_def)
  finally show ?thesis .
qed

lemma documentContents_exportAsJSON:
  assumes "distinct (map fst (exportWrites st))" and "''__proto__'' \<notin> fst ` set (exportWrites st)"
  shows "mset (documentContents (exportAsJSON st)) =
     mset (map (\<lambda>(fileDiff, hunk). (keyOf fileDiff, content hunk, documentKey st (uuidOf st hunk)))
       (traversal st))"
proof -
  have "mset (exportAsJSON st) = mset (exportWrites st)"
    using assms by (simp add: exportAsJSON_writes mset_writes)
  then have "mset (documentContents (exportAsJSON st)) = mset (documentContents (exportWrites st))"
    unfolding documentContents_def by (rule mset_concat_map_cong)
  then show ?thesis
    by (simp only: documentContents_exportWrites mset_map groups_partition)
qed

subsection \<open>The copy made by parsing the written text\<close>

lemma content_reparseHunk: "content (reparseHunk n h) = JSON_content (content h)"
  by (simp add: content_def reparseHunk_def JSON_content_def)

lemma JSON_number_finite: "isFinite c \<Longrightarrow> JSON_number c = c"
  by (cases c) auto

lemma JSON_content_finite: "finiteCoordinates h \<Longrightarrow> JSON_content (content h) = content h"
  by (simp add: finiteCoordinates_def JSON_content_def content_def JSON_number_finite)

lemma reparseHunks_content: "map content (reparseHunks n hs) = map (JSON_content \<circ> content) hs"
  by (induction hs arbitrary: n) (auto simp: content_reparseHunk)

lemma reparseHunks_refs: "h \<in> set (reparseHunks n hs) \<Longrightarrow> n \<le> ref h \<and> ref h < n + length hs"
  by (induction hs arbitrary: n) (fastforce simp: reparseHunk_def)+

lemma length_reparseHunks [simp]: "length (reparseHunks n hs) = length hs"
  by (induction hs arbitrary: n) auto

lemma reparseDiffs_refs:
  "d \<in> set (reparseDiffs n ds) \<Longrightarrow> h \<in> set (hunks d) \<Longrightarrow>
   n \<le> ref h \<and> ref h < n + length (concat (map hunks ds))"
proof (induction ds arbitrary: n)
  case Nil
  then show ?case by simp
next
  case (Cons a ds)
  from Cons.prems(1) consider "d = a\<lparr>hunks := reparseHunks n (hunks a)\<rparr>"
    | "d \<in> set (reparseDiffs (n + length (hunks a)) ds)" by auto
  then show ?case
  proof cases
    case 1
    with Cons.prems(2) reparseHunks_refs[of h n "hunks a"] show ?thesis by auto
  next
    case 2
    from Cons.IH[OF 2 Cons.prems(2)] show ?thesis by auto
  qed
qed

lemma reparseDiffs_contents:
  "concat (map (\<lambda>d. map (\<lambda>h. (keyOf d, content h, l)) (hunks d)) (reparseDiffs n ds))
   = map (\<lambda>(f, c, l). (f, JSON_content c, l))
       (concat (map (\<lambda>d. map (\<lambda>h. (keyOf d, content h, l)) (hunks d)) ds))"
proof (induction ds arbitrary: n)
  case Nil
  then show ?case by simp
next
  case (Cons a ds)
  have "map (\<lambda>h. (keyOf a, content h, l)) (reparseHunks n (hunks a))
      = map (\<lambda>c. (keyOf a, c, l)) (map content (reparseHunks n (hunks a)))"
    by (simp add: comp_def)
  also have "\<dots> = map (\<lambda>(f, c, l). (f, JSON_content c, l)) (map (\<lambda>h. (keyOf a, content h, l)) (hunks a))"
    by (simp add: reparseHunks_content comp_def)
  finally show ?case
    using Cons.IH by (simp add: keyOf_def)
qed

lemma documentContents_JSON_reparse:
  "documentContents (JSON_reparse n doc) = map (\<lambda>(f, c, l). (f, JSON_content c, l)) (documentContents doc)"
  by (induction n doc rule: JSON_reparse.induct) (simp_all add: documentContents_def reparseDiffs_contents)

lemma length_reparseDiffs_hunks:
  "length (concat (map hunks (reparseDiffs n ds))) = length (concat (map hunks ds))"
  by (induction ds arbitrary: n) auto

lemma JSON_reparse_refs:
  "h \<in> set (documentHunks (JSON_reparse n doc)) \<Longrightarrow> n \<le> ref h"
proof (induction n doc rule: JSON_reparse.induct)
  case (1 n)
  then show ?case by (simp add: documentHunks_def)
next
  case (2 n label ds doc)
  from "2.prems" consider d where "d \<in> set (reparseDiffs n ds)" "h \<in> set (hunks d)"
    | "h \<in> set (documentHunks (JSON_reparse (n + length (concat (map hunks ds))) doc))"
    by (auto simp: documentHunks_def)
  then show ?case
  proof cases
    case 1
    from reparseDiffs_refs[OF this] show ?thesis by simp
  next
    case 2
    from "2.IH"[OF this] show ?thesis by simp
  qed
qed

lemma JSON_reparse_disjoint: "entriesDisjoint (JSON_reparse n doc)"
proof (induction n doc rule: JSON_reparse.induct)
  case (1 n)
  then show ?case by simp
next
  case (2 n label ds doc)
  have "set (concat (map hunks (reparseDiffs n ds)))
      \<inter> set (documentHunks (JSON_reparse (n + length (concat (map hunks ds))) doc)) = {}"
  proof (rule ccontr)
    assume "\<not> ?thesis"
    then obtain h where a: "h \<in> set (concat (map hunks (reparseDiffs n ds)))"
      and b: "h \<in> set (documentHunks (JSON_reparse (n + length (concat (map hunks ds))) doc))"
      by blast
    from a obtain d where "d \<in> set (reparseDiffs n ds)" "h \<in> set (hunks d)" by auto
    from reparseDiffs_refs[OF this] have "ref h < n + length (concat (map hunks ds))" by simp
    with JSON_reparse_refs[OF b] show False by simp
  qed
  with 2 show ?case by simp
qed

subsection \<open>Importing a document\<close>

lemma foldl_Map_set_get:
  "Map_get (foldl (\<lambda>m h. Map_set h v m) m hs) k = (if k \<in> set hs then Some v else Map_get m k)"
  by (induction hs arbitrary: m) (auto simp: Map_get_set)

lemma import_hunks_fold:
  "foldl (\<lambda>s d. foldl (\<lambda>s' h. hunkMapActions_set h v s') s (hunks d)) st ds
     = st\<lparr>hunkMap := foldl (\<lambda>m h. Map_set h v m) (hunkMap st) (concat (map hunks ds))\<rparr>"
proof -
  have inner: "foldl (\<lambda>s' h. hunkMapActions_set h v s') s hs
      = s\<lparr>hunkMap := foldl (\<lambda>m h. Map_set h v m) (hunkMap s) hs\<rparr>" for s hs
    by (induction hs arbitrary: s) (simp_all add: hunkMapActions_set_def)
  show ?thesis
    by (induction ds arbitrary: st) (simp_all add: inner)
qed

lemma importEntry_eq:
  "importEntry uuidv4 (result, st) (label, ds) =
     (result @ ds,
      st\<lparr>uuidCalls := Suc (uuidCalls st),
         labelMap := Map_set (uuidv4 (uuidCalls st)) label (labelMap st),
         hunkMap := foldl (\<lambda>m h. Map_set h (uuidv4 (uuidCalls st)) m) (hunkMap st) (concat (map hunks ds))\<rparr>)"
  by (simp add: importEntry_def importLabel_def generateUUID_def labelMapActions_set_def
      import_hunks_fold)

lemma okValues_map_Ok: "okValues (map Ok ds) = ds"
  by (induction ds) auto

lemma forEach_parsedDiffs_Ok:
  "forEach_parsedDiffs v (map Ok ds) st =
     Inr (foldl (\<lambda>s d. foldl (\<lambda>s' h. hunkMapActions_set h v s') s (hunks d)) st ds)"
  by (induction ds arbitrary: st) auto

lemma forEach_entries_document:
  "forEach_entries uuidv4 (map (\<lambda>(label, parsedDiffs). (label, Ok (map Ok parsedDiffs))) doc) acc
     = Inr (foldl (importEntry uuidv4) acc doc)"
proof (induction doc arbitrary: acc)
  case Nil
  then show ?case by simp
next
  case (Cons e doc)
  obtain l ds where e: "e = (l, ds)" by (cases e)
  obtain result st where acc: "acc = (result, st)" by (cases acc)
  obtain v st1 where lab: "importLabel uuidv4 l st = (v, st1)" by (cases "importLabel uuidv4 l st")
  show ?case
    using Cons.IH by (simp add: e acc lab importEntry_def forEach_parsedDiffs_Ok okValues_map_Ok)
qed

lemma import_fold:
  assumes "inj uuidv4" and "entriesDisjoint doc"
  shows "\<exists>st'. foldl (importEntry uuidv4) (result, st) doc = (result @ concat (map snd doc), st')
      \<and> uuidCalls st' = uuidCalls st + length doc
      \<and> labelFilter st' = labelFilter st
      \<and> (\<forall>h. h \<notin> set (documentHunks doc) \<longrightarrow> Map_get (hunkMap st') h = Map_get (hunkMap st) h)
      \<and> (\<forall>u. u \<notin> uuidv4 ` {uuidCalls st ..< uuidCalls st + length doc} \<longrightarrow>
              Map_get (labelMap st') u = Map_get (labelMap st) u)
      \<and> (\<forall>(l, ds) \<in> set doc. \<forall>d \<in> set ds. \<forall>h \<in> set (hunks d). labelText st' h = Some l)"
  using assms(2)
proof (induction doc arbitrary: result st)
  case Nil
  then show ?case by (simp add: documentHunks_def)
next
  case (Cons e doc)
  obtain l ds where e: "e = (l, ds)" by (cases e)
  let ?c = "uuidCalls st"
  let ?st1 = "st\<lparr>uuidCalls := Suc ?c,
         labelMap := Map_set (uuidv4 ?c) l (labelMap st),
         hunkMap := foldl (\<lambda>m h. Map_set h (uuidv4 ?c) m) (hunkMap st) (concat (map hunks ds))\<rparr>"
  from Cons.prems e have disj: "set (concat (map hunks ds)) \<inter> set (documentHunks doc) = {}"
    and rest: "entriesDisjoint doc" by simp_all
  from Cons.IH[OF rest, of "result @ ds" ?st1] obtain st' where
    fold: "foldl (importEntry uuidv4) (result @ ds, ?st1) doc = ((result @ ds) @ concat (map snd doc), st')"
    and calls: "uuidCalls st' = uuidCalls ?st1 + length doc"
    and filt: "labelFilter st' = labelFilter ?st1"
    and hm: "\<forall>h. h \<notin> set (documentHunks doc) \<longrightarrow> Map_get (hunkMap st') h = Map_get (hunkMap ?st1) h"
    and lm: "\<forall>u. u \<notin> uuidv4 ` {uuidCalls ?st1 ..< uuidCalls ?st1 + length doc} \<longrightarrow>
              Map_get (labelMap st') u = Map_get (labelMap ?st1) u"
    and lt: "\<forall>(l, ds) \<in> set doc. \<forall>d \<in> set ds. \<forall>h \<in> set (hunks d). labelText st' h = Some l"
    by blast
  have 1: "foldl (importEntry uuidv4) (result, st) (e # doc) = (result @ concat (map snd (e # doc)), st')"
    using fold by (simp add: e importEntry_eq)
  have 2: "uuidCalls st' = ?c + length (e # doc)" using calls by simp
  have 3: "labelFilter st' = labelFilter st" using filt by simp
  have 4: "Map_get (hunkMap st') h = Map_get (hunkMap st) h" if "h \<notin> set (documentHunks (e # doc))" for h
  proof -
    from that have a: "h \<notin> set (concat (map hunks ds))" "h \<notin> set (documentHunks doc)"
      by (auto simp: documentHunks_def e)
    with hm have "Map_get (hunkMap st') h = Map_get (hunkMap ?st1) h" by blast
    with a(1) show ?thesis by (simp add: foldl_Map_set_get)
  qed
  have fresh: "uuidv4 ?c \<notin> uuidv4 ` {Suc ?c ..< Suc ?c + length doc}"
  proof
    assume "uuidv4 ?c \<in> uuidv4 ` {Suc ?c ..< Suc ?c + length doc}"
    then obtain x where "uuidv4 ?c = uuidv4 x" "Suc ?c \<le> x" by auto
    with assms(1) show False by (auto dest: injD)
  qed
  have 5: "Map_get (labelMap st') u = Map_get (labelMap st) u"
    if "u \<notin> uuidv4 ` {?c ..< ?c + length (e # doc)}" for u
  proof -
    from that have "u \<noteq> uuidv4 ?c" by auto
    moreover from that have "u \<notin> uuidv4 ` {Suc ?c ..< Suc ?c + length doc}" by auto
    with lm have "Map_get (labelMap st') u = Map_get (labelMap ?st1) u" by simp
    ultimately show ?thesis by (simp add: Map_get_set)
  qed
  have 6: "labelText st' h = Some l'" if "(l', ds') \<in> set (e # doc)" "d \<in> set ds'" "h \<in> set (hunks d)"
    for l' ds' d h
  proof (cases "(l', ds') \<in> set doc")
    case True
    with lt that(2,3) show ?thesis by blast
  next
    case False
    with that(1) e have eq: "l' = l" "ds' = ds" by auto
    with that(2,3) have in_ds: "h \<in> set (concat (map hunks ds))" by auto
    with disj have "h \<notin> set (documentHunks doc)" by blast
    with hm have "Map_get (hunkMap st') h = Map_get (hunkMap ?st1) h" by blast
    with in_ds have a: "Map_get (hunkMap st') h = Some (uuidv4 ?c)" by (simp add: foldl_Map_set_get)
    from lm fresh have "Map_get (labelMap st') (uuidv4 ?c) = Map_get (labelMap ?st1) (uuidv4 ?c)" by simp
    then have "Map_get (labelMap st') (uuidv4 ?c) = Some l" by (simp add: Map_get_set)
    with a eq show ?thesis by (simp add: labelText_def)
  qed
  from 1 2 3 4 5 6 show ?case by blast
qed

lemma labelled_traversal:
  assumes "\<forall>(l, ds) \<in> set doc. \<forall>d \<in> set ds. \<forall>h \<in> set (hunks d). lt h = Some l"
  shows "map (\<lambda>(fd, h). (keyOf fd, content h, lt h))
           (concat (map (\<lambda>d. map (Pair d) (hunks d)) (concat (map snd doc))))
         = map (\<lambda>(f, c, l). (f, c, Some l)) (documentContents doc)"
  using assms
proof (induction doc)
  case Nil
  then show ?case by (simp add: documentContents_def)
next
  case (Cons e doc)
  obtain l ds where e: "e = (l, ds)" by (cases e)
  have inner: "map (\<lambda>(fd, h). (keyOf fd, content h, lt h)) (concat (map (\<lambda>d. map (Pair d) (hunks d)) ds'))
      = map (\<lambda>(f, c, l). (f, c, Some l))
          (concat (map (\<lambda>d. map (\<lambda>h. (keyOf d, content h, l)) (hunks d)) ds'))"
    if "set ds' \<subseteq> set ds" for ds'
    using that
  proof (induction ds')
    case Nil
    then show ?case by simp
  next
    case (Cons d ds')
    then have "\<forall>h \<in> set (hunks d). lt h = Some l"
      using Cons.prems \<open>\<forall>(l, ds) \<in> set (e # doc). \<forall>d \<in> set ds. \<forall>h \<in> set (hunks d). lt h = Some l\<close> e
      by auto
    then have "map (\<lambda>(fd, h). (keyOf fd, content h, lt h)) (map (Pair d) (hunks d))
        = map (\<lambda>(f, c, l). (f, c, Some l)) (map (\<lambda>h. (keyOf d, content h, l)) (hunks d))"
      by simp
    with Cons show ?case by simp
  qed
  have "\<forall>(l, ds) \<in> set doc. \<forall>d \<in> set ds. \<forall>h \<in> set (hunks d). lt h = Some l"
    using Cons.prems by auto
  from Cons.IH[OF this] inner[of ds] show ?case
    by (simp add: e documentContents_def)
qed

lemma import_document:
  assumes "inj uuidv4" and "entriesDisjoint doc" and "isJSON rd"
    and "JSON_parse_text rd = Inr (ofDocument doc)"
  shows "\<exists>st'. setRawData uuidv4 rd st = Inr st'
      \<and> diff st' = concat (map snd doc)
      \<and> labelFilter st' = labelFilter st
      \<and> stateContents st' = map (\<lambda>(f, c, l). (f, c, Some l)) (documentContents doc)"
proof -
  let ?st0 = "labelMapActions_reset (hunkMapActions_reset st)"
  from import_fold[OF assms(1,2), of "[]" ?st0] obtain st1 where
    fold: "foldl (importEntry uuidv4) ([], ?st0) doc = (concat (map snd doc), st1)"
    and filt: "labelFilter st1 = labelFilter ?st0"
    and lt: "\<forall>(l, ds) \<in> set doc. \<forall>d \<in> set ds. \<forall>h \<in> set (hunks d). labelText st1 h = Some l"
    by auto
  let ?st' = "st1\<lparr>diff := concat (map snd doc)\<rparr>"
  have res: "setRawData uuidv4 rd st = Inr ?st'"
    using assms(3,4) fold
    by (simp add: setRawData_def diff_useMemo_def ofDocument_def forEach_entries_document)
  have lt': "labelText ?st' = labelText st1"
    by (simp add: labelText_def fun_eq_iff split: option.splits)
  have "stateContents ?st' = map (\<lambda>(f, c, l). (f, c, Some l)) (documentContents doc)"
    using labelled_traversal[OF lt] by (simp add: stateContents_def traversal_def lt')
  moreover have "labelFilter ?st' = labelFilter st"
    using filt by (simp add: actions_defs)
  ultimately show ?thesis using res by simp
qed

subsection \<open>Export, then import\<close>

lemma exportWrites_sampleState: "exportWrites sampleState =
    [(''bugfix'', [fileA\<lparr>hunks := [hunkA1]\<rparr>]), (''undefined'', [fileA\<lparr>hunks := [hunkA2]\<rparr>]),
     (''style'', [fileB])]"
  by (simp add: exportWrites_def exportMap_sampleState Map_values_def documentKey_def orElse_def)
    (simp add: sample_defs NULL_UUID_def)

lemma JSON_reparse_sampleSameText:
  "JSON_reparse 3 (exportAsJSON sampleSameText) =
     [(''same'', [fileB\<lparr>hunks := [hunkB1\<lparr>ref := 3\<rparr>]\<rparr>]),
      (''undefined'', [fileA\<lparr>hunks := [hunkA2\<lparr>ref := 4\<rparr>]\<rparr>])]"
  by (simp add: exportAsJSON_sampleSameText)
    (simp add: fileA_def fileB_def hunkA2_def hunkB1_def reparseHunk_def)

text \<open>
  C1, as the source has it. Take a state in which the label ids that have hunks are
  assigned under pairwise different keys, none of them \<^verbatim>\<open>__proto__\<close>, and a generator
  without collisions. Loading the text written for the exported document succeeds, and
  the hunks of the new working diff, each with its file names, its content (coordinates
  and lines) and the text of its label, are those of the old diff up to their order,
  where
  \<^item> the content is the one the written text gives back: the lines and every finite
    coordinate are unchanged, a coordinate that is not finite has become \<^verbatim>\<open>null\<close>;
  \<^item> the text attached to a hunk is the key under which its group was exported: the
    text of its label when the label id and the text are not empty, and \<^verbatim>\<open>undefined\<close>,
    the text of a label the import creates, for a hunk without association, provided
    no label has the nil UUID as its id.
  The label ids are new.
\<close>

theorem C1_round_trip:
  assumes "inj uuidv4"
    and "distinct (map fst (exportWrites st))" and "''__proto__'' \<notin> fst ` set (exportWrites st)"
    and "isJSON rd" and "JSON_parse_text rd = Inr (ofDocument (JSON_reparse n (exportAsJSON st)))"
  shows "\<exists>st'. setRawData uuidv4 rd st0 = Inr st'
      \<and> mset (stateContents st')
          = mset (map (\<lambda>(fileDiff, hunk).
                         (keyOf fileDiff, JSON_content (content hunk),
                          Some (documentKey st (uuidOf st hunk))))
                    (traversal st))
      \<and> (\<forall>hunk. lines (reparseHunk n hunk) = lines hunk
            \<and> (isFinite (oldStart hunk) \<longrightarrow> oldStart (reparseHunk n hunk) = oldStart hunk)
            \<and> (isFinite (oldLines hunk) \<longrightarrow> oldLines (reparseHunk n hunk) = oldLines hunk)
            \<and> (isFinite (newStart hunk) \<longrightarrow> newStart (reparseHunk n hunk) = newStart hunk)
            \<and> (isFinite (newLines hunk) \<longrightarrow> newLines (reparseHunk n hunk) = newLines hunk)
            \<and> (\<not> isFinite (oldStart hunk) \<longrightarrow> oldStart (reparseHunk n hunk) = Null)
            \<and> (\<not> isFinite (oldLines hunk) \<longrightarrow> oldLines (reparseHunk n hunk) = Null)
            \<and> (\<not> isFinite (newStart hunk) \<longrightarrow> newStart (reparseHunk n hunk) = Null)
            \<and> (\<not> isFinite (newLines hunk) \<longrightarrow> newLines (reparseHunk n hunk) = Null)
            \<and> content (reparseHunk n hunk) = JSON_content (content hunk)
            \<and> (finiteCoordinates hunk \<longrightarrow> JSON_content (content hunk) = content hunk))
      \<and> (\<forall>hunk text. labelText st hunk = Some text \<and> text \<noteq> [] \<and> Map_get (hunkMap st) hunk \<noteq> Some []
            \<longrightarrow> documentKey st (uuidOf st hunk) = text)
      \<and> (\<forall>hunk. Map_get (hunkMap st) hunk = None \<and> Map_get (labelMap st) NULL_UUID = None
            \<longrightarrow> documentKey st (uuidOf st hunk) = ''undefined'')"
proof -
  let ?doc = "JSON_reparse n (exportAsJSON st)"
  let ?T = "\<lambda>(fileDiff, hunk). (keyOf fileDiff, content hunk, documentKey st (uuidOf st hunk))"
  from import_document[OF assms(1) JSON_reparse_disjoint assms(4,5), of st0]
  obtain st' where st': "setRawData uuidv4 rd st0 = Inr st'"
    "stateContents st' = map (\<lambda>(f, c, l). (f, c, Some l)) (documentContents ?doc)"
    by blast
  have "mset (stateContents st')
      = image_mset (\<lambda>(f, c, l). (f, JSON_content c, Some l)) (mset (documentContents (exportAsJSON st)))"
    by (simp add: st'(2) documentContents_JSON_reparse multiset.map_comp comp_def case_prod_unfold)
  also have "\<dots> = image_mset (\<lambda>(f, c, l). (f, JSON_content c, Some l)) (mset (map ?T (traversal st)))"
    by (simp only: documentContents_exportAsJSON[OF assms(2,3)])
  also have "\<dots> = mset (map (\<lambda>(fileDiff, hunk).
                         (keyOf fileDiff, JSON_content (content hunk),
                          Some (documentKey st (uuidOf st hunk))))
                    (traversal st))"
    by (simp add: multiset.map_comp comp_def case_prod_unfold)
  finally have 1: "mset (stateContents st')
          = mset (map (\<lambda>(fileDiff, hunk).
                         (keyOf fileDiff, JSON_content (content hunk),
                          Some (documentKey st (uuidOf st hunk))))
                    (traversal st))" .
  have num: "(isFinite c \<longrightarrow> JSON_number c = c) \<and> (\<not> isFinite c \<longrightarrow> JSON_number c = Null)" for c
    by (cases c) auto
  have 2: "\<forall>hunk. lines (reparseHunk n hunk) = lines hunk
            \<and> (isFinite (oldStart hunk) \<longrightarrow> oldStart (reparseHunk n hunk) = oldStart hunk)
            \<and> (isFinite (oldLines hunk) \<longrightarrow> oldLines (reparseHunk n hunk) = oldLines hunk)
            \<and> (isFinite (newStart hunk) \<longrightarrow> newStart (reparseHunk n hunk) = newStart hunk)
            \<and> (isFinite (newLines hunk) \<longrightarrow> newLines (reparseHunk n hunk) = newLines hunk)
            \<and> (\<not> isFinite (oldStart hunk) \<longrightarrow> oldStart (reparseHunk n hunk) = Null)
            \<and> (\<not> isFinite (oldLines hunk) \<longrightarrow> oldLines (reparseHunk n hunk) = Null)
            \<and> (\<not> isFinite (newStart hunk) \<longrightarrow> newStart (reparseHunk n hunk) = Null)
            \<and> (\<not> isFinite (newLines hunk) \<longrightarrow> newLines (reparseHunk n hunk) = Null)
            \<and> content (reparseHunk n hunk) = JSON_content (content hunk)
            \<and> (finiteCoordinates hunk \<longrightarrow> JSON_content (content hunk) = content hunk)"
    using num by (simp add: reparseHunk_def content_reparseHunk[unfolded reparseHunk_def] JSON_content_finite)
  have 3: "\<forall>hunk text. labelText st hunk = Some text \<and> text \<noteq> [] \<and> Map_get (hunkMap st) hunk \<noteq> Some []
            \<longrightarrow> documentKey st (uuidOf st hunk) = text"
    by (auto simp: labelText_def documentKey_def uuidOf_def orElse_def split: option.splits)
  have 4: "\<forall>hunk. Map_get (hunkMap st) hunk = None \<and> Map_get (labelMap st) NULL_UUID = None
            \<longrightarrow> documentKey st (uuidOf st hunk) = ''undefined''"
    by (auto simp: documentKey_def uuidOf_def orElse_def)
  from st'(1) 1 2 3 4 show ?thesis by blast
qed

text \<open>The theorem at the sample, whose keys are \<open>bugfix\<close>, \<open>undefined\<close> and \<open>style\<close>.\<close>

theorem C1_round_trip_witness:
  "inj sampleUuidv4
   \<and> distinct (map fst (exportWrites sampleState)) \<and> ''__proto__'' \<notin> fst ` set (exportWrites sampleState)
   \<and> labelText sampleState hunkA1 = Some ''bugfix''
   \<and> Map_get (hunkMap sampleState) hunkA1 \<noteq> Some []
   \<and> documentKey sampleState (uuidOf sampleState hunkA1) = ''bugfix''
   \<and> Map_get (hunkMap sampleState) hunkA2 = None \<and> Map_get (labelMap sampleState) NULL_UUID = None
   \<and> documentKey sampleState (uuidOf sampleState hunkA2) = ''undefined''
   \<and> finiteCoordinates hunkA1 \<and> JSON_content (content hunkA1) = content hunkA1
   \<and> \<not> isFinite (oldStart (hunkA1\<lparr>oldStart := Infinity\<rparr>))
   \<and> oldStart (reparseHunk 3 (hunkA1\<lparr>oldStart := Infinity\<rparr>)) = Null
   \<and> (\<exists>st'. setRawData sampleUuidv4
          \<lparr>isJSON = True, JSON_parse_text = Inr (ofDocument (JSON_reparse 3 (exportAsJSON sampleState))),
             parsePatch_text = Inl Error\<rparr> sampleState = Inr st'
        \<and> mset (stateContents st')
            = mset (map (\<lambda>(fileDiff, hunk).
                  (keyOf fileDiff, JSON_content (content hunk),
                   Some (documentKey sampleState (uuidOf sampleState hunk))))
                (traversal sampleState)))"
proof -
  let ?rd = "\<lparr>isJSON = True, JSON_parse_text = Inr (ofDocument (JSON_reparse 3 (exportAsJSON sampleState))),
             parsePatch_text = Inl Error\<rparr>"
  have 1: "distinct (map fst (exportWrites sampleState))"
    by (simp add: exportWrites_sampleState)
  have 2: "''__proto__'' \<notin> fst ` set (exportWrites sampleState)"
    by (simp add: exportWrites_sampleState)
  have 3: "isJSON ?rd" by simp
  have 4: "JSON_parse_text ?rd = Inr (ofDocument (JSON_reparse 3 (exportAsJSON sampleState)))" by simp
  have 5: "labelText sampleState hunkA1 = Some ''bugfix''"
    by (simp add: labelText_def sample_defs)
  have 6: "Map_get (hunkMap sampleState) hunkA1 \<noteq> Some []"
    by (simp add: sample_defs)
  have 7: "Map_get (hunkMap sampleState) hunkA2 = None" "Map_get (labelMap sampleState) NULL_UUID = None"
    by (simp_all add: sample_defs NULL_UUID_def)
  have 8: "finiteCoordinates hunkA1" "\<not> isFinite (oldStart (hunkA1\<lparr>oldStart := Infinity\<rparr>))"
    by (simp_all add: finiteCoordinates_def hunkA1_def)
  from C1_round_trip[OF sampleUuidv4_inj 1 2 3 4, of sampleState] 5 6 7 8
  have "documentKey sampleState (uuidOf sampleState hunkA1) = ''bugfix''
    \<and> documentKey sampleState (uuidOf sampleState hunkA2) = ''undefined''
    \<and> JSON_content (content hunkA1) = content hunkA1
    \<and> oldStart (reparseHunk 3 (hunkA1\<lparr>oldStart := Infinity\<rparr>)) = Null
    \<and> (\<exists>st'. setRawData sampleUuidv4 ?rd sampleState = Inr st'
        \<and> mset (stateContents st')
            = mset (map (\<lambda>(fileDiff, hunk).
                  (keyOf fileDiff, JSON_content (content hunk),
                   Some (documentKey sampleState (uuidOf sampleState hunk))))
                (traversal sampleState)))"
    by blast
  with sampleUuidv4_inj 1 2 5 6 7 8 show ?thesis by blast
qed

text \<open>
  The claim as it is written fails: export and import of the sample with both labels
  renamed to \<open>same\<close> returns a state with two hunks. Hunk A1 is gone, and hunk A2, which
  had no label, is attached to a label with the text \<open>undefined\<close>.
\<close>

theorem C1_round_trip_loses_hunk:
  "setRawData sampleUuidv4
      \<lparr>isJSON = True, JSON_parse_text = Inr (ofDocument (JSON_reparse 3 (exportAsJSON sampleSameText))),
         parsePatch_text = Inl Error\<rparr> sampleSameText = Inr sampleReimported
   \<and> stateContents sampleSameText =
       [((Some ''a/A'', Some ''b/A''), content hunkA1, Some ''same''),
        ((Some ''a/A'', Some ''b/A''), content hunkA2, None),
        ((Some ''a/B'', Some ''b/B''), content hunkB1, Some ''same'')]
   \<and> stateContents sampleReimported =
       [((Some ''a/B'', Some ''b/B''), content hunkB1, Some ''same''),
        ((Some ''a/A'', Some ''b/A''), content hunkA2, Some ''undefined'')]"
proof -
  have "setRawData sampleUuidv4
      \<lparr>isJSON = True, JSON_parse_text = Inr (ofDocument (JSON_reparse 3 (exportAsJSON sampleSameText))),
         parsePatch_text = Inl Error\<rparr> sampleSameText = Inr sampleReimported"
    by (simp add: JSON_reparse_sampleSameText)
      (simp add: setRawData_def diff_useMemo_def ofDocument_def importLabel_def generateUUID_def
        sampleUuidv4_def sampleReimported_def sample_defs numeral_2_eq_2 numeral_3_eq_3)
  moreover have "stateContents sampleSameText =
       [((Some ''a/A'', Some ''b/A''), content hunkA1, Some ''same''),
        ((Some ''a/A'', Some ''b/A''), content hunkA2, None),
        ((Some ''a/B'', Some ''b/B''), content hunkB1, Some ''same'')]"
    by (simp add: stateContents_def traversal_def labelText_def keyOf_def JSON_stringify_names_def
        sample_defs)
  moreover have "stateContents sampleReimported =
       [((Some ''a/B'', Some ''b/B''), content hunkB1, Some ''same''),
        ((Some ''a/A'', Some ''b/A''), content hunkA2, Some ''undefined'')]"
    by (simp add: stateContents_def traversal_def labelText_def keyOf_def JSON_stringify_names_def
        sampleReimported_def content_def sample_defs)
  ultimately show ?thesis by blast
qed

end
